theory Spec2Isabelle
  imports Main "HOL-Library.Word" "HOL-Library.Multiset"
begin

section \<open>Strings\<close>

text \<open>
  A JavaScript string is a sequence of 16-bit code units. \<open>js\<close> writes a literal.
\<close>

type_synonym jsstring = "16 word list"

definition js :: "string \<Rightarrow> jsstring" where
  "js s = map of_char s"

text \<open>
  \<open>String.prototype.trim\<close> removes the code units of WhiteSpace and LineTerminator
  (ECMA-262) from both ends: TAB, LF, VT, FF, CR, SPACE, NBSP, U+1680, U+2000 to U+200A,
  U+2028, U+2029, U+202F, U+205F, U+3000 and U+FEFF.
\<close>

definition isWhiteSpace :: "16 word \<Rightarrow> bool" where
  "isWhiteSpace c \<longleftrightarrow>
     c \<in> set [0x9, 0xA, 0xB, 0xC, 0xD, 0x20, 0xA0, 0x1680,
               0x2000, 0x2001, 0x2002, 0x2003, 0x2004, 0x2005, 0x2006, 0x2007,
               0x2008, 0x2009, 0x200A, 0x2028, 0x2029, 0x202F, 0x205F, 0x3000, 0xFEFF]"

definition trim :: "jsstring \<Rightarrow> jsstring" where
  "trim s = rev (dropWhile isWhiteSpace (rev (dropWhile isWhiteSpace s)))"

section \<open>The component's state\<close>

text \<open>
  \<open>type Todo\<close>. The optional property \<open>editing?: boolean\<close> is an option.
  Timestamps are the integers that \<open>Date.now()\<close> returns (milliseconds).
\<close>

record Todo =
  id' :: jsstring
  title :: jsstring
  completed :: bool
  createdAt :: int
  updatedAt :: int
  editing :: "bool option"

datatype filter_mode = FilterAll | FilterActive | FilterCompleted

text \<open>
  The reactive state of the component: \<open>todos\<close>, \<open>newTitle\<close>, \<open>filter\<close>, and
  \<open>editingInputRefs\<close>. Of an input element only its \<open>value\<close> is read, so the map
  gives, for an id, the current value of the mounted edit field, and \<open>None\<close> where
  \<open>editingInputRefs.get(id)\<close> is \<open>undefined\<close> or \<open>null\<close>.
\<close>

record state =
  todos :: "Todo list"
  newTitle :: jsstring
  filter' :: filter_mode
  editingInputRefs :: "jsstring \<Rightarrow> jsstring option"

datatype exn = TypeError | SyntaxError | SecurityError | QuotaExceededError

section \<open>Operations of the item store\<close>

text \<open>
  \<open>addTodo\<close>. The clock reading \<open>Date.now()\<close> and the value of \<open>uid()\<close> (random)
  are inputs. The empty string is the only falsy string.
\<close>

definition addTodo :: "int \<Rightarrow> jsstring \<Rightarrow> state \<Rightarrow> state" where
  "addTodo now uid st =
     (let title = trim (newTitle st) in
      if title = [] then st
      else st\<lparr>todos :=
                \<lparr>id' = uid, title = title, completed = False,
                 createdAt = now, updatedAt = now, editing = Some False\<rparr> # todos st,
              newTitle := []\<rparr>)"

text \<open>
  \<open>Array.prototype.findIndex\<close>: the index of the first element that satisfies the
  predicate, \<open>None\<close> for \<open>-1\<close>. \<open>Array.prototype.find\<close> returns a reference to that
  same element, \<open>undefined\<close> when there is none; the reference is modelled by the index,
  and a write through it by an update of the list at that index.
\<close>

fun findIndex :: "('a \<Rightarrow> bool) \<Rightarrow> 'a list \<Rightarrow> nat option" where
  "findIndex P [] = None"
| "findIndex P (x # xs) = (if P x then Some 0 else map_option Suc (findIndex P xs))"

definition toggleTodo :: "int \<Rightarrow> jsstring \<Rightarrow> state \<Rightarrow> state" where
  "toggleTodo now i st =
     (case findIndex (\<lambda>t. id' t = i) (todos st) of
        None \<Rightarrow> st
      | Some k \<Rightarrow>
          let t = todos st ! k;
              t = t\<lparr>completed := \<not> completed t\<rparr>;
              t = t\<lparr>updatedAt := now\<rparr>
          in st\<lparr>todos := (todos st)[k := t]\<rparr>)"

text \<open>\<open>xs.splice(k, 1)\<close> for an index \<open>k\<close> that is not negative.\<close>

definition splice1 :: "nat \<Rightarrow> 'a list \<Rightarrow> 'a list" where
  "splice1 k xs = take k xs @ drop (Suc k) xs"

definition deleteTodo :: "jsstring \<Rightarrow> state \<Rightarrow> state" where
  "deleteTodo i st =
     (case findIndex (\<lambda>t. id' t = i) (todos st) of
        None \<Rightarrow> st
      | Some idx \<Rightarrow> st\<lparr>todos := splice1 idx (todos st)\<rparr>)"

text \<open>
  \<open>startEdit\<close>. The callback given to \<open>nextTick\<close> focuses and selects the input
  element; it writes nothing to the state.
\<close>

definition startEdit :: "jsstring \<Rightarrow> state \<Rightarrow> state" where
  "startEdit i st =
     (case findIndex (\<lambda>t. id' t = i) (todos st) of
        None \<Rightarrow> st
      | Some k \<Rightarrow> st\<lparr>todos := (todos st)[k := (todos st ! k)\<lparr>editing := Some True\<rparr>]\<rparr>)"

text \<open>
  \<open>stopEdit(id, commit)\<close>. The template calls it with \<open>commit = true\<close> on Enter and on
  blur (the spec's commitEdit) and with \<open>commit = false\<close> on Escape (the spec's
  cancelEdit). The raw value is \<open>input?.value ?? t.title\<close>.
\<close>

definition stopEdit :: "int \<Rightarrow> jsstring \<Rightarrow> bool \<Rightarrow> state \<Rightarrow> state" where
  "stopEdit now i commit st =
     (case findIndex (\<lambda>t. id' t = i) (todos st) of
        None \<Rightarrow> st
      | Some k \<Rightarrow>
          let t = todos st ! k;
              t = (if commit then
                     (let val = trim (case editingInputRefs st i of
                                        Some v \<Rightarrow> v | None \<Rightarrow> title t)
                      in if val \<noteq> [] then t\<lparr>title := val, updatedAt := now\<rparr> else t)
                   else t);
              t = t\<lparr>editing := Some False\<rparr>
          in st\<lparr>todos := (todos st)[k := t]\<rparr>)"

section \<open>View projection\<close>

definition filtered :: "state \<Rightarrow> Todo list" where
  "filtered st =
     (if filter' st = FilterActive then filter (\<lambda>t. \<not> completed t) (todos st)
      else if filter' st = FilterCompleted then filter (\<lambda>t. completed t) (todos st)
      else todos st)"

definition remainingCount :: "state \<Rightarrow> nat" where
  "remainingCount st = length (filter (\<lambda>t. \<not> completed t) (todos st))"

definition completedCount :: "state \<Rightarrow> nat" where
  "completedCount st = length (filter (\<lambda>t. completed t) (todos st))"

text \<open>
  \<open>clearCompleted\<close>: the loop \<open>for (let i = todos.length - 1; i >= 0; i--)\<close>. The
  counter of the model is \<open>i + 1\<close>. Reading \<open>todos[i].completed\<close> at an index outside
  the array would throw a TypeError.
\<close>

fun clearCompleted_loop :: "nat \<Rightarrow> Todo list \<Rightarrow> exn + Todo list" where
  "clearCompleted_loop 0 ts = Inr ts"
| "clearCompleted_loop (Suc i) ts =
     (if i < length ts then
        (if completed (ts ! i) then clearCompleted_loop i (splice1 i ts)
         else clearCompleted_loop i ts)
      else Inl TypeError)"

definition clearCompleted :: "state \<Rightarrow> exn + state" where
  "clearCompleted st =
     (case clearCompleted_loop (length (todos st)) (todos st) of
        Inl e \<Rightarrow> Inl e
      | Inr ts \<Rightarrow> Inr (st\<lparr>todos := ts\<rparr>))"

section \<open>A sample state\<close>

text \<open>Two tasks with distinct ids, and an edit field mounted for each of them.\<close>

definition st0 :: state where
  "st0 = \<lparr>todos = [\<lparr>id' = js ''a'', title = js ''Buy milk'', completed = False,
                     createdAt = 1000, updatedAt = 1000, editing = Some True\<rparr>,
                   \<lparr>id' = js ''b'', title = js ''Call mom'', completed = True,
                     createdAt = 900, updatedAt = 950, editing = Some True\<rparr>],
           newTitle = js ''  Walk dog '', filter' = FilterAll,
           editingInputRefs = [js ''a'' \<mapsto> js ''  new title  '', js ''b'' \<mapsto> js ''   '']\<rparr>"

section \<open>JSON values\<close>

text \<open>
  The values that JSON text denotes. An object is the list of its properties in
  insertion order, with distinct keys (the engine lists keys that are array indices
  first; the code reads properties by name only). A number is kept as an exact decimal:
  \<open>JNum m k\<close> stands for \<open>m / 10^k\<close>, where \<open>k = 0\<close> or \<open>10\<close> does not divide
  \<open>m\<close>; a timestamp \<open>n\<close> is \<open>JNum n 0\<close>. The engine's numbers are IEEE doubles:
  its rounding, its negative zero and the overflow of a literal such as \<open>1e999\<close> to
  Infinity are outside this model.
\<close>

datatype json =
    JNull
  | JBool bool
  | JNum int nat
  | JStr jsstring
  | JArr "json list"
  | JObj "(jsstring \<times> json) list"

subsection \<open>Numbers\<close>

text \<open>
  \<open>dec\<close> is the decimal numeral of a natural number. \<open>number_toString\<close> is
  \<open>Number::toString\<close> in plain decimal notation: what the engine prints for every
  integer below \<open>10^21\<close>, so for every clock reading (for very small or very long
  fractions the engine prints an exponent or rounds). \<open>parse_number\<close> reads the
  JSON number grammar: an optional minus, an integer part without leading zeros, an
  optional fraction, an optional exponent.
\<close>

definition is_digit :: "16 word \<Rightarrow> bool" where
  "is_digit c \<longleftrightarrow> 0x30 \<le> c \<and> c \<le> 0x39"

definition digit_val :: "16 word \<Rightarrow> nat" where
  "digit_val c = unat c - 48"

definition digit_char :: "nat \<Rightarrow> 16 word" where
  "digit_char n = of_nat (48 + n)"

fun dec :: "nat \<Rightarrow> jsstring" where
  "dec n = (if n < 10 then [digit_char n] else dec (n div 10) @ [digit_char (n mod 10)])"

declare dec.simps [simp del]

definition digits_val :: "jsstring \<Rightarrow> nat" where
  "digits_val ds = foldl (\<lambda>a c. 10 * a + digit_val c) 0 ds"

definition number_toString :: "int \<Rightarrow> nat \<Rightarrow> jsstring" where
  "number_toString m k =
     (if m < 0 then [0x2D] else []) @ dec (nat \<bar>m\<bar> div 10 ^ k) @
     (if k = 0 then []
      else 0x2E # replicate (k - length (dec (nat \<bar>m\<bar> mod 10 ^ k))) 0x30
                  @ dec (nat \<bar>m\<bar> mod 10 ^ k))"

fun norm_dec :: "int \<Rightarrow> nat \<Rightarrow> int \<times> nat" where
  "norm_dec m 0 = (m, 0)"
| "norm_dec m (Suc k) = (if m mod 10 = 0 then norm_dec (m div 10) k else (m, Suc k))"

definition mk_number :: "bool \<Rightarrow> nat \<Rightarrow> int \<Rightarrow> json" where
  "mk_number neg d e =
     (let m = (if neg then - int d else int d) in
      if 0 \<le> e then JNum (m * 10 ^ nat e) 0
      else (case norm_dec m (nat (- e)) of (m', k) \<Rightarrow> JNum m' k))"

definition parse_sign :: "jsstring \<Rightarrow> bool \<times> jsstring" where
  "parse_sign s = (case s of [] \<Rightarrow> (False, s) | c # r \<Rightarrow> if c = 0x2D then (True, r) else (False, s))"

definition parse_int_part :: "jsstring \<Rightarrow> jsstring \<times> jsstring" where
  "parse_int_part s =
     (case s of [] \<Rightarrow> ([], s)
      | c # r \<Rightarrow> if c = 0x30 then ([c], r) else (takeWhile is_digit s, dropWhile is_digit s))"

definition parse_frac :: "jsstring \<Rightarrow> (jsstring \<times> jsstring) option" where
  "parse_frac s =
     (case s of [] \<Rightarrow> Some ([], s)
      | c # r \<Rightarrow>
          if c = 0x2E then
            (if takeWhile is_digit r = [] then None
             else Some (takeWhile is_digit r, dropWhile is_digit r))
          else Some ([], s))"

definition parse_exp :: "jsstring \<Rightarrow> (int \<times> jsstring) option" where
  "parse_exp s =
     (case s of [] \<Rightarrow> Some (0, s)
      | c # r \<Rightarrow>
          if c = 0x65 \<or> c = 0x45 then
            (let (neg, r1) = (case r of [] \<Rightarrow> (False, r)
                              | x # r' \<Rightarrow> if x = 0x2D then (True, r')
                                          else if x = 0x2B then (False, r') else (False, r))
             in if takeWhile is_digit r1 = [] then None
                else Some ((if neg then - int (digits_val (takeWhile is_digit r1))
                            else int (digits_val (takeWhile is_digit r1))),
                           dropWhile is_digit r1))
          else Some (0, s))"

definition parse_number :: "jsstring \<Rightarrow> (json \<times> jsstring) option" where
  "parse_number s =
     (case parse_sign s of (neg, s1) \<Rightarrow>
      case parse_int_part s1 of (ip, s2) \<Rightarrow>
        if ip = [] then None
        else case parse_frac s2 of None \<Rightarrow> None
             | Some (fp, s3) \<Rightarrow>
                 (case parse_exp s3 of None \<Rightarrow> None
                  | Some (ex, s4) \<Rightarrow>
                      Some (mk_number neg (digits_val (ip @ fp)) (ex - int (length fp)), s4)))"

subsection \<open>Strings\<close>

text \<open>
  \<open>QuoteJSONString\<close> of ECMA-262: the two-character escapes, \<open>\<^verbatim>\<open>\u\<close>\<close> with four
  lower-case hex digits for the other control characters and for a surrogate that is not
  part of a pair, every other code unit as it is. \<open>parse_string\<close> reads a JSON string
  after its opening quote and returns it with the text that follows the closing quote.
\<close>

definition hexdigit :: "nat \<Rightarrow> 16 word" where
  "hexdigit n = (if n < 10 then of_nat (48 + n) else of_nat (87 + n))"

definition UnicodeEscape :: "16 word \<Rightarrow> jsstring" where
  "UnicodeEscape c =
     [0x5C, 0x75, hexdigit (unat c div 4096), hexdigit (unat c div 256 mod 16),
      hexdigit (unat c div 16 mod 16), hexdigit (unat c mod 16)]"

definition is_high_surrogate :: "16 word \<Rightarrow> bool" where
  "is_high_surrogate c \<longleftrightarrow> 0xD800 \<le> c \<and> c \<le> 0xDBFF"

definition is_low_surrogate :: "16 word \<Rightarrow> bool" where
  "is_low_surrogate c \<longleftrightarrow> 0xDC00 \<le> c \<and> c \<le> 0xDFFF"

definition quote_unit :: "16 word \<Rightarrow> jsstring" where
  "quote_unit c =
     (if c = 0x08 then [0x5C, 0x62]
      else if c = 0x09 then [0x5C, 0x74]
      else if c = 0x0A then [0x5C, 0x6E]
      else if c = 0x0C then [0x5C, 0x66]
      else if c = 0x0D then [0x5C, 0x72]
      else if c = 0x22 then [0x5C, 0x22]
      else if c = 0x5C then [0x5C, 0x5C]
      else if c < 0x20 \<or> is_high_surrogate c \<or> is_low_surrogate c then UnicodeEscape c
      else [c])"

fun quote_units :: "jsstring \<Rightarrow> jsstring" where
  "quote_units [] = []"
| "quote_units [c] = quote_unit c"
| "quote_units (c # d # r) =
     (if is_high_surrogate c \<and> is_low_surrogate d then c # d # quote_units r
      else quote_unit c @ quote_units (d # r))"

definition QuoteJSONString :: "jsstring \<Rightarrow> jsstring" where
  "QuoteJSONString s = 0x22 # quote_units s @ [0x22]"

definition hexval :: "16 word \<Rightarrow> nat option" where
  "hexval c =
     (if 0x30 \<le> c \<and> c \<le> 0x39 then Some (unat c - 48)
      else if 0x61 \<le> c \<and> c \<le> 0x66 then Some (unat c - 87)
      else if 0x41 \<le> c \<and> c \<le> 0x46 then Some (unat c - 55)
      else None)"

definition hex4 :: "16 word \<Rightarrow> 16 word \<Rightarrow> 16 word \<Rightarrow> 16 word \<Rightarrow> 16 word option" where
  "hex4 a b c d =
     (case hexval a of None \<Rightarrow> None | Some x3 \<Rightarrow>
      case hexval b of None \<Rightarrow> None | Some x2 \<Rightarrow>
      case hexval c of None \<Rightarrow> None | Some x1 \<Rightarrow>
      case hexval d of None \<Rightarrow> None | Some x0 \<Rightarrow>
        Some (of_nat (((x3 * 16 + x2) * 16 + x1) * 16 + x0)))"

definition unescape :: "16 word \<Rightarrow> 16 word option" where
  "unescape e =
     (if e = 0x22 \<or> e = 0x5C \<or> e = 0x2F then Some e
      else if e = 0x62 then Some 0x08
      else if e = 0x66 then Some 0x0C
      else if e = 0x6E then Some 0x0A
      else if e = 0x72 then Some 0x0D
      else if e = 0x74 then Some 0x09
      else None)"

definition cons_fst :: "'a \<Rightarrow> ('a list \<times> 'b) option \<Rightarrow> ('a list \<times> 'b) option" where
  "cons_fst x res = (case res of None \<Rightarrow> None | Some (xs, r) \<Rightarrow> Some (x # xs, r))"

fun parse_string :: "jsstring \<Rightarrow> (jsstring \<times> jsstring) option" where
  "parse_string [] = None"
| "parse_string (c # r) =
     (if c = 0x22 then Some ([], r)
      else if c = 0x5C then
        (case r of [] \<Rightarrow> None
         | e # r1 \<Rightarrow>
             if e = 0x75 then
               (case r1 of
                  h3 # h2 # h1 # h0 # r2 \<Rightarrow>
                    (case hex4 h3 h2 h1 h0 of None \<Rightarrow> None
                     | Some u \<Rightarrow> cons_fst u (parse_string r2))
                | _ \<Rightarrow> None)
             else (case unescape e of None \<Rightarrow> None
                   | Some u \<Rightarrow> cons_fst u (parse_string r1)))
      else if c < 0x20 then None
      else cons_fst c (parse_string r))"

subsection \<open>Serialising\<close>

text \<open>\<open>JSON.stringify\<close> with one argument: no indentation, members joined by commas.\<close>

fun join_comma :: "jsstring list \<Rightarrow> jsstring" where
  "join_comma [] = []"
| "join_comma [x] = x"
| "join_comma (x # y # ys) = x @ 0x2C # join_comma (y # ys)"

fun JSON_stringify :: "json \<Rightarrow> jsstring" where
  "JSON_stringify JNull = js ''null''"
| "JSON_stringify (JBool b) = (if b then js ''true'' else js ''false'')"
| "JSON_stringify (JNum m k) = number_toString m k"
| "JSON_stringify (JStr s) = QuoteJSONString s"
| "JSON_stringify (JArr vs) = 0x5B # join_comma (map JSON_stringify vs) @ [0x5D]"
| "JSON_stringify (JObj ps) =
     0x7B # join_comma (map (\<lambda>(k, v). QuoteJSONString k @ 0x3A # JSON_stringify v) ps) @ [0x7D]"

subsection \<open>Parsing\<close>

text \<open>
  \<open>JSON.parse\<close> with one argument, by recursive descent over the grammar of ECMA-404.
  Each function returns the value read and the text after it, or \<open>None\<close> where the
  engine throws a SyntaxError. A later member with the key of an earlier one replaces
  its value (\<open>add_member\<close>). The two tests \<open>length r < length s\<close> make the recursion
  on the rest of the text well-founded by construction; they are always true
  (\<open>parse_elements_unguarded\<close> and \<open>parse_members_unguarded\<close> below).
\<close>

definition is_json_ws :: "16 word \<Rightarrow> bool" where
  "is_json_ws c \<longleftrightarrow> c = 0x20 \<or> c = 0x09 \<or> c = 0x0A \<or> c = 0x0D"

definition skip_ws :: "jsstring \<Rightarrow> jsstring" where
  "skip_ws s = dropWhile is_json_ws s"

definition add_member :: "jsstring \<Rightarrow> json \<Rightarrow> (jsstring \<times> json) list \<Rightarrow> (jsstring \<times> json) list" where
  "add_member k v ps =
     (k, case map_of ps k of None \<Rightarrow> v | Some v' \<Rightarrow> v') # filter (\<lambda>p. fst p \<noteq> k) ps"

lemma parse_string_shorter: "parse_string s = Some (str, r) \<Longrightarrow> length r < length s"
proof (induction s arbitrary: str r rule: parse_string.induct)
  case 1
  then show ?case by simp
next
  case (2 c s)
  then show ?case
    by (auto simp: cons_fst_def split: if_splits list.splits option.splits) fastforce+
qed

lemma length_skip_ws: "length (skip_ws s) \<le> length s"
  by (simp add: skip_ws_def length_dropWhile_le)

function (sequential) parse_value :: "jsstring \<Rightarrow> (json \<times> jsstring) option"
  and parse_elements :: "jsstring \<Rightarrow> (json list \<times> jsstring) option"
  and parse_members :: "jsstring \<Rightarrow> ((jsstring \<times> json) list \<times> jsstring) option"
where
  "parse_value s =
     (case skip_ws s of [] \<Rightarrow> None
      | c # r \<Rightarrow>
          if c = 0x22 then
            (case parse_string r of None \<Rightarrow> None | Some (str, r') \<Rightarrow> Some (JStr str, r'))
          else if c = 0x5B then
            (case skip_ws r of
               [] \<Rightarrow> None
             | c' # r' \<Rightarrow>
                 if c' = 0x5D then Some (JArr [], r')
                 else (case parse_elements r of None \<Rightarrow> None
                       | Some (vs, r'') \<Rightarrow> Some (JArr vs, r'')))
          else if c = 0x7B then
            (case skip_ws r of
               [] \<Rightarrow> None
             | c' # r' \<Rightarrow>
                 if c' = 0x7D then Some (JObj [], r')
                 else (case parse_members r of None \<Rightarrow> None
                       | Some (ps, r'') \<Rightarrow> Some (JObj ps, r'')))
          else if take 4 (c # r) = js ''true'' then Some (JBool True, drop 4 (c # r))
          else if take 5 (c # r) = js ''false'' then Some (JBool False, drop 5 (c # r))
          else if take 4 (c # r) = js ''null'' then Some (JNull, drop 4 (c # r))
          else parse_number (c # r))"
| "parse_elements s =
     (case parse_value s of None \<Rightarrow> None
      | Some (v, r) \<Rightarrow>
          (case skip_ws r of [] \<Rightarrow> None
           | c # r' \<Rightarrow>
               if c = 0x5D then Some ([v], r')
               else if c = 0x2C \<and> length r' < length s then
                 (case parse_elements r' of None \<Rightarrow> None
                  | Some (vs, r'') \<Rightarrow> Some (v # vs, r''))
               else None))"
| "parse_members s =
     (case skip_ws s of [] \<Rightarrow> None
      | q # r0 \<Rightarrow>
          if q \<noteq> 0x22 then None
          else (case parse_string r0 of None \<Rightarrow> None
           | Some (k, r1) \<Rightarrow>
              (case skip_ws r1 of [] \<Rightarrow> None
               | c1 # r2 \<Rightarrow>
                  if c1 \<noteq> 0x3A then None
                  else (case parse_value r2 of None \<Rightarrow> None
                   | Some (v, r3) \<Rightarrow>
                      (case skip_ws r3 of [] \<Rightarrow> None
                       | c3 # r4 \<Rightarrow>
                           if c3 = 0x7D then Some ([(k, v)], r4)
                           else if c3 = 0x2C \<and> length r4 < length s then
                             (case parse_members r4 of None \<Rightarrow> None
                              | Some (ps, r5) \<Rightarrow> Some (add_member k v ps, r5))
                           else None)))))"
  by pat_completeness auto

termination
proof (relation "measure (\<lambda>x. case x of Inl s \<Rightarrow> 2 * length s + 1
                                | Inr (Inl s) \<Rightarrow> 2 * length s + 2
                                | Inr (Inr s) \<Rightarrow> 2 * length s + 2)", goal_cases)
  case 1
  then show ?case by simp
next
  case (2 s c r c' r')
  with length_skip_ws[of s] show ?case by simp
next
  case (3 s c r c' r')
  with length_skip_ws[of s] show ?case by simp
next
  case (4 s)
  then show ?case by simp
next
  case (5 s x v r c r')
  then show ?case by simp
next
  case (6 s q r0 x k r1 c1 r2)
  with length_skip_ws[of s] length_skip_ws[of r1] parse_string_shorter[of r0 k r1]
  show ?case by simp
next
  case (7 s q r0 x k r1 c1 r2 y v r3 c3 r4)
  then show ?case by simp
qed

declare parse_value.simps [simp del] parse_elements.simps [simp del] parse_members.simps [simp del]

definition JSON_parse :: "jsstring \<Rightarrow> exn + json" where
  "JSON_parse raw =
     (case parse_value raw of None \<Rightarrow> Inl SyntaxError
      | Some (v, r) \<Rightarrow> if skip_ws r = [] then Inr v else Inl SyntaxError)"

section \<open>Persistence\<close>

text \<open>
  The browser's \<open>localStorage\<close>: the stored items, whether access is denied (every
  access then throws a SecurityError), and whether the quota is used up (a write then
  throws a QuotaExceededError).
\<close>

record localStorage =
  items :: "jsstring \<Rightarrow> jsstring option"
  blocked :: bool
  full :: bool

definition getItem :: "localStorage \<Rightarrow> jsstring \<Rightarrow> exn + jsstring option" where
  "getItem ls key = (if blocked ls then Inl SecurityError else Inr (items ls key))"

definition setItem :: "localStorage \<Rightarrow> jsstring \<Rightarrow> jsstring \<Rightarrow> exn + localStorage" where
  "setItem ls key v =
     (if blocked ls then Inl SecurityError
      else if full ls then Inl QuotaExceededError
      else Inr (ls\<lparr>items := (items ls)(key \<mapsto> v)\<rparr>))"

definition STORAGE_KEY :: jsstring where
  "STORAGE_KEY = js ''slidev_todos_v1''"

text \<open>
  The getter of the watcher maps every task to an object literal with five properties;
  its callback writes the serialised array under the storage key, and logs a warning when
  the write throws. \<open>persist\<close> returns the storage and what was logged.
\<close>

definition durable :: "Todo \<Rightarrow> json" where
  "durable t =
     JObj [(js ''id'', JStr (id' t)), (js ''title'', JStr (title t)),
           (js ''completed'', JBool (completed t)),
           (js ''createdAt'', JNum (createdAt t) 0), (js ''updatedAt'', JNum (updatedAt t) 0)]"

definition snapshot :: "Todo list \<Rightarrow> json" where
  "snapshot ts = JArr (map durable ts)"

type_synonym console = "(jsstring \<times> exn) list"

abbreviation parse_warning :: "exn \<Rightarrow> jsstring \<times> exn" where
  "parse_warning e \<equiv> (js ''Failed to parse localStorage todos'', e)"

definition persist :: "Todo list \<Rightarrow> localStorage \<Rightarrow> exn + localStorage \<times> console" where
  "persist ts ls =
     (case setItem ls STORAGE_KEY (JSON_stringify (snapshot ts)) of
        Inr ls' \<Rightarrow> Inr (ls', [])
      | Inl e \<Rightarrow> Inr (ls, [(js ''Failed to save todos'', e)]))"

text \<open>
  The callback of \<open>onMounted\<close>. \<open>raw\<close> is falsy when it is \<open>null\<close> or the empty
  string. Nothing checks the elements of the parsed array, so the objects pushed are
  kept as JSON values: \<open>hydrate t\<close> is \<open>{ ...t, editing: false }\<close>, the own
  enumerable properties of \<open>t\<close> (those of an object; the indices of an array or of a
  string; none for a number, a boolean or null) with \<open>editing\<close> set to false. The
  collection is empty before the callback runs, so the result of \<open>onMounted\<close> is the
  collection after loading, with what was logged. \<open>as_Todo\<close> reads an object that
  has the properties of \<open>type Todo\<close> as a task.
\<close>

definition own_properties :: "json \<Rightarrow> (jsstring \<times> json) list" where
  "own_properties v =
     (case v of
        JObj ps \<Rightarrow> ps
      | JArr xs \<Rightarrow> zip (map dec [0..<length xs]) xs
      | JStr s \<Rightarrow> zip (map dec [0..<length s]) (map (\<lambda>c. JStr [c]) s)
      | _ \<Rightarrow> [])"

fun set_property :: "jsstring \<Rightarrow> json \<Rightarrow> (jsstring \<times> json) list \<Rightarrow> (jsstring \<times> json) list" where
  "set_property k v [] = [(k, v)]"
| "set_property k v ((k', v') # ps) =
     (if k' = k then (k, v) # ps else (k', v') # set_property k v ps)"

definition hydrate :: "json \<Rightarrow> json" where
  "hydrate t = JObj (set_property (js ''editing'') (JBool False) (own_properties t))"

definition onMounted_try :: "localStorage \<Rightarrow> exn + json list" where
  "onMounted_try ls =
     (case getItem ls STORAGE_KEY of
        Inl e \<Rightarrow> Inl e
      | Inr raw \<Rightarrow>
          (case raw of
             None \<Rightarrow> Inr []
           | Some str \<Rightarrow>
               if str = [] then Inr []
               else (case JSON_parse str of
                       Inl e \<Rightarrow> Inl e
                     | Inr data \<Rightarrow>
                         (case data of JArr xs \<Rightarrow> Inr (map hydrate xs) | _ \<Rightarrow> Inr []))))"

definition onMounted :: "localStorage \<Rightarrow> exn + json list \<times> console" where
  "onMounted ls =
     (case onMounted_try ls of
        Inr xs \<Rightarrow> Inr (xs, [])
      | Inl e \<Rightarrow> Inr ([], [parse_warning e]))"


definition durable_keys :: "jsstring list" where
  "durable_keys = [js ''id'', js ''title'', js ''completed'', js ''createdAt'', js ''updatedAt'']"

text \<open>An empty storage that can be read and written.\<close>

definition ls0 :: localStorage where
  "ls0 = \<lparr>items = Map.empty, blocked = False, full = False\<rparr>"

section \<open>Finding a task by id\<close>

lemma findIndex_None_iff: "findIndex P xs = None \<longleftrightarrow> (\<forall>x\<in>set xs. \<not> P x)"
  by (induction xs) auto

lemma findIndex_SomeD:
  "findIndex P xs = Some k \<Longrightarrow> k < length xs \<and> P (xs ! k) \<and> (\<forall>j<k. \<not> P (xs ! j))"
proof (induction xs arbitrary: k)
  case Nil
  then show ?case by simp
next
  case (Cons x xs)
  show ?case
  proof (cases "P x")
    case True
    with Cons.prems show ?thesis by simp
  next
    case False
    with Cons.prems obtain k' where k: "findIndex P xs = Some k'" "k = Suc k'"
      by auto
    from Cons.IH[OF k(1)] False k(2) show ?thesis
      by (auto simp: nth_Cons split: nat.splits)
  qed
qed

lemma findIndex_first:
  "k < length xs \<Longrightarrow> P (xs ! k) \<Longrightarrow> (\<forall>j<k. \<not> P (xs ! j)) \<Longrightarrow> findIndex P xs = Some k"
proof (induction xs arbitrary: k)
  case Nil
  then show ?case by simp
next
  case (Cons x xs)
  show ?case
  proof (cases k)
    case 0
    with Cons.prems show ?thesis by simp
  next
    case (Suc k')
    with Cons.prems have "\<not> P x" by auto
    moreover have "findIndex P xs = Some k'"
      using Cons.prems Suc by (intro Cons.IH) auto
    ultimately show ?thesis using Suc by simp
  qed
qed

lemma st0_length: "length (todos st0) = 2"
  by (simp add: st0_def)

lemma st0_findIndex:
  "findIndex (\<lambda>t. id' t = js ''b'') (todos st0) = Some 1"
  "findIndex (\<lambda>t. id' t = js ''zz'') (todos st0) = None"
  by (simp_all add: st0_def js_def)

section \<open>Adding a task\<close>

text \<open>
  C1. \<open>addTodo\<close> trims the input. When the trimmed input is empty the state is returned
  as it was. Otherwise a task with the trimmed title, not completed, and with
  \<open>createdAt = updatedAt\<close>, is put in front of the collection. Adding "Buy milk" and
  then "Call mom" to any collection gives a collection that starts with the titles
  "Call mom", "Buy milk".
\<close>

theorem addTodo_spec:
  "(trim (newTitle st) = [] \<longrightarrow> addTodo now uid st = st) \<and>
   (trim (newTitle st) \<noteq> [] \<longrightarrow>
      (\<exists>t. todos (addTodo now uid st) = t # todos st \<and> title t = trim (newTitle st) \<and>
           \<not> completed t \<and> createdAt t = updatedAt t)) \<and>
   map title (take 2 (todos
      (addTodo now2 uid2 ((addTodo now1 uid1 (st\<lparr>newTitle := js ''Buy milk''\<rparr>))
                            \<lparr>newTitle := js ''Call mom''\<rparr>))))
     = [js ''Call mom'', js ''Buy milk'']"
proof -
  have a: "trim (js ''Buy milk'') = js ''Buy milk''" "js ''Buy milk'' \<noteq> []"
    by (simp_all add: trim_def js_def isWhiteSpace_def)
  have b: "trim (js ''Call mom'') = js ''Call mom''" "js ''Call mom'' \<noteq> []"
    by (simp_all add: trim_def js_def isWhiteSpace_def)
  show ?thesis
    by (simp add: addTodo_def Let_def a b)
qed

theorem addTodo_spec_witness:
  "trim (newTitle (st0\<lparr>newTitle := js '' ''\<rparr>)) = [] \<and>
   addTodo 5 (js ''u'') (st0\<lparr>newTitle := js '' ''\<rparr>) = st0\<lparr>newTitle := js '' ''\<rparr> \<and>
   trim (newTitle st0) \<noteq> [] \<and>
   (\<exists>t. todos (addTodo 5 (js ''u'') st0) = t # todos st0 \<and> title t = js ''Walk dog'' \<and>
        \<not> completed t \<and> createdAt t = updatedAt t)"
proof -
  have e: "trim (newTitle (st0\<lparr>newTitle := js '' ''\<rparr>)) = []"
    by (simp add: trim_def js_def isWhiteSpace_def)
  have n: "trim (newTitle st0) = js ''Walk dog''"
    by (simp add: st0_def trim_def js_def isWhiteSpace_def)
  have n': "js ''Walk dog'' \<noteq> []" by (simp add: js_def)
  show ?thesis
    using addTodo_spec [of "st0\<lparr>newTitle := js '' ''\<rparr>" 5 "js ''u''"]
          addTodo_spec [of st0 5 "js ''u''"] e n n'
    by simp
qed

section \<open>Committing an edit\<close>

text \<open>
  C2. Take the task at position \<open>k\<close>, no earlier task carrying its id (every task, when
  ids are unique), and let \<open>raw\<close> be the value of its edit field. \<open>stopEdit\<close> with
  \<open>commit = true\<close> trims \<open>raw\<close>. When the trimmed value is empty the title stays; when
  it is not, the title becomes the trimmed value and \<open>updatedAt\<close> becomes the clock
  reading. In both cases \<open>editing\<close> is false afterwards. "  new title  " trims to
  "new title".
\<close>

theorem stopEdit_commit_spec:
  assumes "k < length (todos st)"
      and "\<forall>j<k. id' (todos st ! j) \<noteq> id' (todos st ! k)"
      and "editingInputRefs st (id' (todos st ! k)) = Some raw"
  shows "(trim raw = [] \<longrightarrow>
            title (todos (stopEdit now (id' (todos st ! k)) True st) ! k) = title (todos st ! k)) \<and>
         (trim raw \<noteq> [] \<longrightarrow>
            title (todos (stopEdit now (id' (todos st ! k)) True st) ! k) = trim raw \<and>
            updatedAt (todos (stopEdit now (id' (todos st ! k)) True st) ! k) = now) \<and>
         editing (todos (stopEdit now (id' (todos st ! k)) True st) ! k) = Some False \<and>
         trim (js ''  new title  '') = js ''new title''"
proof -
  have "findIndex (\<lambda>t. id' t = id' (todos st ! k)) (todos st) = Some k"
    using assms(1,2) by (intro findIndex_first) auto
  moreover have "trim (js ''  new title  '') = js ''new title''"
    by (simp add: trim_def js_def isWhiteSpace_def)
  ultimately show ?thesis
    using assms(1,3) by (simp add: stopEdit_def Let_def)
qed

theorem stopEdit_commit_spec_witness:
  "0 < length (todos st0) \<and>
   editingInputRefs st0 (id' (todos st0 ! 0)) = Some (js ''  new title  '') \<and>
   title (todos (stopEdit 7 (js ''a'') True st0) ! 0) = js ''new title'' \<and>
   updatedAt (todos (stopEdit 7 (js ''a'') True st0) ! 0) = 7 \<and>
   editing (todos (stopEdit 7 (js ''a'') True st0) ! 0) = Some False \<and>
   1 < length (todos st0) \<and>
   id' (todos st0 ! 0) \<noteq> id' (todos st0 ! 1) \<and>
   editingInputRefs st0 (id' (todos st0 ! 1)) = Some (js ''   '') \<and>
   title (todos (stopEdit 7 (js ''b'') True st0) ! 1) = js ''Call mom'' \<and>
   editing (todos (stopEdit 7 (js ''b'') True st0) ! 1) = Some False"
proof -
  have a1: "0 < length (todos st0)" and b1: "1 < length (todos st0)"
    by (simp_all add: st0_def)
  have a2: "\<forall>j<0. id' (todos st0 ! j) \<noteq> id' (todos st0 ! 0)"
    by simp
  have ne: "id' (todos st0 ! 0) \<noteq> id' (todos st0 ! 1)"
    by (simp add: st0_def js_def)
  then have b2: "\<forall>j<1. id' (todos st0 ! j) \<noteq> id' (todos st0 ! 1)"
    by simp
  have a3: "editingInputRefs st0 (id' (todos st0 ! 0)) = Some (js ''  new title  '')"
    by (simp add: st0_def js_def)
  have b3: "editingInputRefs st0 (id' (todos st0 ! 1)) = Some (js ''   '')"
    by (simp add: st0_def js_def)
  have ids: "id' (todos st0 ! 0) = js ''a''" "id' (todos st0 ! Suc 0) = js ''b''"
    by (simp_all add: st0_def)
  have tr: "trim (js ''   '') = []" "trim (js ''  new title  '') = js ''new title''"
    "js ''new title'' \<noteq> []" "title (todos st0 ! Suc 0) = js ''Call mom''"
    by (simp_all add: trim_def js_def isWhiteSpace_def st0_def)
  show ?thesis
    using stopEdit_commit_spec [OF a1 a2 a3, where now = 7]
          stopEdit_commit_spec [OF b1 b2 b3, where now = 7]
          a1 b1 ne a3 b3
    by (simp add: ids tr)
qed

section \<open>Toggling\<close>

text \<open>
  C3, as the code has it. Take the task at position \<open>k\<close>, no earlier task carrying its
  id. \<open>toggleTodo\<close> negates its \<open>completed\<close> and sets its \<open>updatedAt\<close> to the clock
  reading; after a second toggle \<open>completed\<close> has its first value again and
  \<open>updatedAt\<close> is the second clock reading. So \<open>updatedAt\<close> grows on a toggle when
  the clock reading is later than the value it replaces.
\<close>

theorem toggleTodo_twice:
  assumes "k < length (todos st)"
      and "\<forall>j<k. id' (todos st ! j) \<noteq> id' (todos st ! k)"
  shows "completed (todos (toggleTodo now1 (id' (todos st ! k)) st) ! k)
           = (\<not> completed (todos st ! k)) \<and>
         updatedAt (todos (toggleTodo now1 (id' (todos st ! k)) st) ! k) = now1 \<and>
         completed (todos (toggleTodo now2 (id' (todos st ! k))
                             (toggleTodo now1 (id' (todos st ! k)) st)) ! k)
           = completed (todos st ! k) \<and>
         updatedAt (todos (toggleTodo now2 (id' (todos st ! k))
                             (toggleTodo now1 (id' (todos st ! k)) st)) ! k) = now2 \<and>
         (updatedAt (todos st ! k) < now1 \<longrightarrow>
            updatedAt (todos st ! k)
              < updatedAt (todos (toggleTodo now1 (id' (todos st ! k)) st) ! k)) \<and>
         (now1 < now2 \<longrightarrow>
            updatedAt (todos (toggleTodo now1 (id' (todos st ! k)) st) ! k)
              < updatedAt (todos (toggleTodo now2 (id' (todos st ! k))
                                    (toggleTodo now1 (id' (todos st ! k)) st)) ! k))"
proof -
  let ?i = "id' (todos st ! k)"
  let ?P = "\<lambda>t. id' t = ?i"
  let ?st1 = "toggleTodo now1 ?i st"
  have f0: "findIndex ?P (todos st) = Some k"
    using assms by (intro findIndex_first) auto
  have t1: "todos ?st1 = (todos st)[k := (todos st ! k)
              \<lparr>completed := \<not> completed (todos st ! k), updatedAt := now1\<rparr>]"
    using f0 by (simp add: toggleTodo_def Let_def)
  have f1: "findIndex ?P (todos ?st1) = Some k"
    using assms by (intro findIndex_first) (auto simp: t1)
  have t2: "todos (toggleTodo now2 ?i ?st1) = (todos ?st1)[k := (todos ?st1 ! k)
              \<lparr>completed := \<not> completed (todos ?st1 ! k), updatedAt := now2\<rparr>]"
    using f1 by (simp add: toggleTodo_def Let_def)
  show ?thesis
    using assms(1) by (simp add: t2) (simp add: t1)
qed

theorem toggleTodo_twice_witness:
  "0 < length (todos st0) \<and>
   completed (todos (toggleTodo 1001 (js ''a'') st0) ! 0) \<and>
   updatedAt (todos (toggleTodo 1001 (js ''a'') st0) ! 0) = 1001 \<and>
   \<not> completed (todos (toggleTodo 1002 (js ''a'') (toggleTodo 1001 (js ''a'') st0)) ! 0) \<and>
   updatedAt (todos (toggleTodo 1002 (js ''a'') (toggleTodo 1001 (js ''a'') st0)) ! 0) = 1002 \<and>
   updatedAt (todos st0 ! 0) < 1001 \<and>
   updatedAt (todos st0 ! 0) < updatedAt (todos (toggleTodo 1001 (js ''a'') st0) ! 0)"
proof -
  have h1: "0 < length (todos st0)"
    by (simp add: st0_def)
  have h2: "\<forall>j<0. id' (todos st0 ! j) \<noteq> id' (todos st0 ! 0)"
    by simp
  have v: "id' (todos st0 ! 0) = js ''a''" "\<not> completed (todos st0 ! 0)"
    "updatedAt (todos st0 ! 0) = 1000"
    by (simp_all add: st0_def)
  show ?thesis
    using toggleTodo_twice [OF h1 h2, where ?now1.0 = 1001 and ?now2.0 = 1002] h1
    by (simp add: v)
qed

text \<open>
  The claim as written fails where the clock has not advanced: the first task of the
  sample state was written at 1000, and a toggle in that same millisecond leaves its
  \<open>updatedAt\<close> at 1000.
\<close>

theorem toggle_same_millisecond_counterexample:
  "\<not> updatedAt (todos st0 ! 0) < updatedAt (todos (toggleTodo 1000 (js ''a'') st0) ! 0)"
  by (simp add: st0_def toggleTodo_def js_def Let_def)

section \<open>Clearing completed tasks\<close>

lemma clearCompleted_loop_eq:
  "i \<le> length ts \<Longrightarrow>
   clearCompleted_loop i ts = Inr (filter (\<lambda>t. \<not> completed t) (take i ts) @ drop i ts)"
proof (induction i arbitrary: ts)
  case 0
  then show ?case by simp
next
  case (Suc i)
  then have i: "i < length ts" by simp
  have split: "take (Suc i) ts = take i ts @ [ts ! i]"
    using i by (simp add: take_Suc_conv_app_nth)
  show ?case
  proof (cases "completed (ts ! i)")
    case True
    have len: "i \<le> length (splice1 i ts)"
      using i by (simp add: splice1_def)
    have "take i (splice1 i ts) = take i ts" "drop i (splice1 i ts) = drop (Suc i) ts"
      using i by (simp_all add: splice1_def)
    with Suc.IH[OF len] True i split show ?thesis by simp
  next
    case False
    have "drop i ts = ts ! i # drop (Suc i) ts"
      using i by (simp add: Cons_nth_drop_Suc)
    with Suc.IH[of ts] False i split show ?thesis by simp
  qed
qed

text \<open>
  C4. \<open>clearCompleted\<close> returns (it does not throw), and the collection it leaves is the
  subsequence of the tasks that are not completed: the survivors as they were, in their
  order.
\<close>

theorem clearCompleted_removes_exactly_completed:
  "clearCompleted st = Inr (st\<lparr>todos := filter (\<lambda>t. \<not> completed t) (todos st)\<rparr>)"
  by (simp add: clearCompleted_def clearCompleted_loop_eq)

section \<open>Ids that are not in the collection\<close>

text \<open>
  C7. For an id that no task carries, \<open>toggleTodo\<close>, \<open>deleteTodo\<close>, \<open>startEdit\<close> and
  \<open>stopEdit\<close> (committing or cancelling) return the state as it was. None of them has
  a path that throws, so each is a function from states to states.
\<close>

theorem missing_id_is_noop:
  assumes "i \<notin> id' ` set (todos st)"
  shows "toggleTodo now i st = st \<and> deleteTodo i st = st \<and> startEdit i st = st \<and>
         stopEdit now i True st = st \<and> stopEdit now i False st = st"
proof -
  from assms have "findIndex (\<lambda>t. id' t = i) (todos st) = None"
    by (auto simp: findIndex_None_iff)
  then show ?thesis
    by (simp add: toggleTodo_def deleteTodo_def startEdit_def stopEdit_def)
qed

theorem missing_id_is_noop_witness:
  "js ''zz'' \<notin> id' ` set (todos st0) \<and>
   toggleTodo 7 (js ''zz'') st0 = st0 \<and> deleteTodo (js ''zz'') st0 = st0 \<and>
   startEdit (js ''zz'') st0 = st0 \<and>
   stopEdit 7 (js ''zz'') True st0 = st0 \<and> stopEdit 7 (js ''zz'') False st0 = st0"
proof -
  have h: "js ''zz'' \<notin> id' ` set (todos st0)"
    by (simp add: st0_def js_def)
  show ?thesis
    using missing_id_is_noop [OF h, where now = 7] h by simp
qed

section \<open>Counts and projections\<close>

text \<open>
  C8. In every state \<open>remainingCount + completedCount\<close> is the number of tasks; the
  "active" and the "completed" projection together hold every task as often as the
  collection does, and no task is in both; the "all" projection is the collection.
\<close>

theorem counts_and_projections_partition:
  "remainingCount st + completedCount st = length (todos st) \<and>
   mset (filtered (st\<lparr>filter' := FilterActive\<rparr>))
     + mset (filtered (st\<lparr>filter' := FilterCompleted\<rparr>)) = mset (todos st) \<and>
   set (filtered (st\<lparr>filter' := FilterActive\<rparr>))
     \<inter> set (filtered (st\<lparr>filter' := FilterCompleted\<rparr>)) = {} \<and>
   filtered (st\<lparr>filter' := FilterAll\<rparr>) = todos st"
proof -
  have "remainingCount st + completedCount st = length (todos st)"
    unfolding remainingCount_def completedCount_def
    by (simp add: sum_length_filter_compl add.commute)
  moreover have "mset (filtered (st\<lparr>filter' := FilterActive\<rparr>))
      + mset (filtered (st\<lparr>filter' := FilterCompleted\<rparr>)) = mset (todos st)"
    by (simp add: filtered_def add.commute)
  moreover have "set (filtered (st\<lparr>filter' := FilterActive\<rparr>))
      \<inter> set (filtered (st\<lparr>filter' := FilterCompleted\<rparr>)) = {}"
    by (auto simp: filtered_def)
  moreover have "filtered (st\<lparr>filter' := FilterAll\<rparr>) = todos st"
    by (simp add: filtered_def)
  ultimately show ?thesis by blast
qed

section \<open>What a mutation by id leaves alone\<close>

text \<open>
  C10. Let \<open>hit\<close> be the position of the first task whose id is \<open>i\<close>, if there is one.
  \<open>toggleTodo\<close> and \<open>stopEdit\<close> keep the length of the collection and every task at
  another position; at every position \<open>toggleTodo\<close> keeps id, title, createdAt and
  editing, and \<open>stopEdit\<close> keeps id, completed and createdAt. \<open>deleteTodo\<close> changes
  nothing when there is no hit; otherwise it removes the task at \<open>hit\<close> and nothing
  else: the collection is one shorter, the tasks before \<open>hit\<close> stay, and those after
  it move up by one place.
\<close>

theorem per_id_mutation_frame:
  "(let ts = todos st;
        hit = findIndex (\<lambda>t. id' t = i) ts;
        tg = todos (toggleTodo now i st);
        ed = todos (stopEdit now i commit st);
        de = todos (deleteTodo i st)
    in (hit = None \<longleftrightarrow> i \<notin> id' ` set ts) \<and>
       (\<forall>k. hit = Some k \<longrightarrow> k < length ts \<and> id' (ts ! k) = i \<and> (\<forall>j<k. id' (ts ! j) \<noteq> i)) \<and>
       length tg = length ts \<and>
       (\<forall>j<length ts. hit \<noteq> Some j \<longrightarrow> tg ! j = ts ! j) \<and>
       (\<forall>j<length ts. id' (tg ! j) = id' (ts ! j) \<and> title (tg ! j) = title (ts ! j) \<and>
                      createdAt (tg ! j) = createdAt (ts ! j) \<and> editing (tg ! j) = editing (ts ! j)) \<and>
       length ed = length ts \<and>
       (\<forall>j<length ts. hit \<noteq> Some j \<longrightarrow> ed ! j = ts ! j) \<and>
       (\<forall>j<length ts. id' (ed ! j) = id' (ts ! j) \<and> completed (ed ! j) = completed (ts ! j) \<and>
                      createdAt (ed ! j) = createdAt (ts ! j)) \<and>
       (hit = None \<longrightarrow> de = ts) \<and>
       (\<forall>k. hit = Some k \<longrightarrow>
            length de + 1 = length ts \<and>
            (\<forall>j<k. de ! j = ts ! j) \<and>
            (\<forall>j. k \<le> j \<and> j < length de \<longrightarrow> de ! j = ts ! Suc j)))"
proof -
  let ?ts = "todos st"
  let ?hit = "findIndex (\<lambda>t. id' t = i) ?ts"
  have none: "?hit = None \<longleftrightarrow> i \<notin> id' ` set ?ts"
    by (auto simp: findIndex_None_iff)
  have some: "k < length ?ts \<and> id' (?ts ! k) = i \<and> (\<forall>j<k. id' (?ts ! j) \<noteq> i)"
    if "?hit = Some k" for k
    using findIndex_SomeD[OF that] by simp
  have tg_len: "length (todos (toggleTodo now i st)) = length ?ts"
    by (simp add: toggleTodo_def Let_def split: option.splits)
  have tg_other: "todos (toggleTodo now i st) ! j = ?ts ! j" if "?hit \<noteq> Some j" for j
    using that by (auto simp: toggleTodo_def Let_def split: option.splits)
  have tg_fields: "id' (todos (toggleTodo now i st) ! j) = id' (?ts ! j) \<and>
      title (todos (toggleTodo now i st) ! j) = title (?ts ! j) \<and>
      createdAt (todos (toggleTodo now i st) ! j) = createdAt (?ts ! j) \<and>
      editing (todos (toggleTodo now i st) ! j) = editing (?ts ! j)" if j: "j < length ?ts" for j
  proof (cases ?hit)
    case None
    then show ?thesis by (simp add: toggleTodo_def)
  next
    case (Some k)
    with some[OF Some] j show ?thesis
      by (cases "j = k") (simp_all add: toggleTodo_def Let_def)
  qed
  have ed_len: "length (todos (stopEdit now i commit st)) = length ?ts"
    by (simp add: stopEdit_def Let_def split: option.splits)
  have ed_other: "todos (stopEdit now i commit st) ! j = ?ts ! j" if "?hit \<noteq> Some j" for j
    using that by (auto simp: stopEdit_def Let_def split: option.splits)
  have ed_fields: "id' (todos (stopEdit now i commit st) ! j) = id' (?ts ! j) \<and>
      completed (todos (stopEdit now i commit st) ! j) = completed (?ts ! j) \<and>
      createdAt (todos (stopEdit now i commit st) ! j) = createdAt (?ts ! j)" if j: "j < length ?ts" for j
  proof (cases ?hit)
    case None
    then show ?thesis by (simp add: stopEdit_def)
  next
    case (Some k)
    with some[OF Some] j show ?thesis
      by (cases "j = k") (simp_all add: stopEdit_def Let_def)
  qed
  have de_none: "todos (deleteTodo i st) = ?ts" if "?hit = None"
    using that by (simp add: deleteTodo_def)
  have de_some: "length (todos (deleteTodo i st)) + 1 = length ?ts \<and>
      (\<forall>j<k. todos (deleteTodo i st) ! j = ?ts ! j) \<and>
      (\<forall>j. k \<le> j \<and> j < length (todos (deleteTodo i st)) \<longrightarrow> todos (deleteTodo i st) ! j = ?ts ! Suc j)"
    if h: "?hit = Some k" for k
  proof -
    from some[OF h] have k: "k < length ?ts" by simp
    have d: "todos (deleteTodo i st) = take k ?ts @ drop (Suc k) ?ts"
      using h by (simp add: deleteTodo_def splice1_def)
    show ?thesis
      using k by (auto simp: d nth_append min_def)
  qed
  show ?thesis
    unfolding Let_def
    using none some tg_len tg_other tg_fields ed_len ed_other ed_fields de_none de_some
    by blast
qed

theorem per_id_mutation_frame_witness:
  "findIndex (\<lambda>t. id' t = js ''b'') (todos st0) = Some 1 \<and>
   length (todos (toggleTodo 7 (js ''b'') st0)) = 2 \<and>
   todos (toggleTodo 7 (js ''b'') st0) ! 0 = todos st0 ! 0 \<and>
   title (todos (toggleTodo 7 (js ''b'') st0) ! 1) = js ''Call mom'' \<and>
   todos (stopEdit 7 (js ''b'') True st0) ! 0 = todos st0 ! 0 \<and>
   completed (todos (stopEdit 7 (js ''b'') True st0) ! 1) \<and>
   length (todos (deleteTodo (js ''b'') st0)) + 1 = 2 \<and>
   todos (deleteTodo (js ''b'') st0) ! 0 = todos st0 ! 0 \<and>
   findIndex (\<lambda>t. id' t = js ''zz'') (todos st0) = None \<and>
   todos (deleteTodo (js ''zz'') st0) = todos st0"
proof -
  have t1: "title (todos st0 ! 1) = js ''Call mom''"
    and c1: "completed (todos st0 ! 1)"
    by (simp_all add: st0_def)
  show ?thesis
    using per_id_mutation_frame [of st0 "js ''b''" 7 True]
          per_id_mutation_frame [of st0 "js ''zz''" 7 True]
    unfolding Let_def st0_findIndex st0_length
    using t1 c1 by simp
qed

section \<open>Strings survive quoting and parsing\<close>

lemma nibble_cases:
  assumes "n < (16::nat)"
  shows "n \<in> set [0, 1, 2, 3, 4, 5, 6, 7, 8, 9, 10, 11, 12, 13, 14, 15]"
  using assms by (simp) arith


lemma hexval_hexdigit: "n < 16 \<Longrightarrow> hexval (hexdigit n) = Some n"
proof -
  assume "n < 16"
  from nibble_cases[OF this] show ?thesis
    by (simp only: set_simps insert_iff empty_iff, elim disjE) (simp_all add: hexval_def hexdigit_def)
qed

lemma nibbles_sum:
  "((n div 4096 * 16 + n div 256 mod 16) * 16 + n div 16 mod 16) * 16 + n mod 16 = (n::nat)"
proof -
  have a: "n div 4096 = n div 256 div 16" and b: "n div 256 = n div 16 div 16"
    by (simp_all add: div_mult2_eq[symmetric])
  have "n div 4096 * 16 + n div 256 mod 16 = n div 256"
    unfolding a by (rule div_mult_mod_eq)
  moreover have "n div 256 * 16 + n div 16 mod 16 = n div 16"
    unfolding b by (rule div_mult_mod_eq)
  moreover have "n div 16 * 16 + n mod 16 = n"
    by (rule div_mult_mod_eq)
  ultimately show ?thesis by simp
qed

lemma hex4_nibbles:
  "hex4 (hexdigit (unat c div 4096)) (hexdigit (unat c div 256 mod 16))
        (hexdigit (unat c div 16 mod 16)) (hexdigit (unat c mod 16)) = Some c"
proof -
  have "unat c < 65536"
    using unsigned_less[of c] by simp
  then have a: "unat c div 4096 < 16" by simp
  have b: "unat c div 256 mod 16 < 16" "unat c div 16 mod 16 < 16" "unat c mod 16 < 16"
    by simp_all
  have "hex4 (hexdigit (unat c div 4096)) (hexdigit (unat c div 256 mod 16))
        (hexdigit (unat c div 16 mod 16)) (hexdigit (unat c mod 16))
      = Some (of_nat (((unat c div 4096 * 16 + unat c div 256 mod 16) * 16
                        + unat c div 16 mod 16) * 16 + unat c mod 16))"
    by (simp only: hex4_def hexval_hexdigit[OF a] hexval_hexdigit[OF b(1)]
          hexval_hexdigit[OF b(2)] hexval_hexdigit[OF b(3)] option.case)
  also have "\<dots> = Some (of_nat (unat c))"
    by (simp only: nibbles_sum)
  finally show ?thesis by simp
qed

lemma parse_string_UnicodeEscape:
  "parse_string (UnicodeEscape c @ s) = cons_fst c (parse_string s)"
  by (simp add: UnicodeEscape_def hex4_nibbles)

lemma parse_string_literal:
  "c \<noteq> 0x22 \<Longrightarrow> c \<noteq> 0x5C \<Longrightarrow> \<not> c < 0x20 \<Longrightarrow> parse_string (c # s) = cons_fst c (parse_string s)"
  by simp

lemma parse_string_quote_unit:
  "parse_string (quote_unit c @ s) = cons_fst c (parse_string s)"
proof -
  consider "c = 0x08" | "c = 0x09" | "c = 0x0A" | "c = 0x0C" | "c = 0x0D" | "c = 0x22" | "c = 0x5C"
    | "c \<notin> {0x08, 0x09, 0x0A, 0x0C, 0x0D, 0x22, 0x5C}" "c < 0x20 \<or> is_high_surrogate c \<or> is_low_surrogate c"
    | "c \<notin> {0x08, 0x09, 0x0A, 0x0C, 0x0D, 0x22, 0x5C}" "\<not> (c < 0x20 \<or> is_high_surrogate c \<or> is_low_surrogate c)"
    by blast
  then show ?thesis
  proof cases
    case 8
    then show ?thesis
      by (simp add: quote_unit_def parse_string_UnicodeEscape)
  next
    case 9
    then show ?thesis
      by (simp add: quote_unit_def)
  qed (simp_all add: quote_unit_def unescape_def)
qed

lemma surrogate_literal:
  assumes "is_high_surrogate c \<or> is_low_surrogate c"
  shows "c \<noteq> 0x22" "c \<noteq> 0x5C" "\<not> c < 0x20"
  using assms by (auto simp: is_high_surrogate_def is_low_surrogate_def word_le_nat_alt word_less_nat_alt)

lemma parse_string_quote_units:
  "parse_string (quote_units s @ 0x22 # rest) = Some (s, rest)"
proof (induction s rule: quote_units.induct)
  case 1
  show ?case by simp
next
  case (2 c)
  show ?case by (simp add: parse_string_quote_unit cons_fst_def)
next
  case (3 c d r)
  show ?case
  proof (cases "is_high_surrogate c \<and> is_low_surrogate d")
    case True
    then have c: "c \<noteq> 0x22" "c \<noteq> 0x5C" "\<not> c < 0x20" and d: "d \<noteq> 0x22" "d \<noteq> 0x5C" "\<not> d < 0x20"
      using surrogate_literal[of c] surrogate_literal[of d] by blast+
    have q: "quote_units (c # d # r) = c # d # quote_units r"
      using True by simp
    have "parse_string (quote_units (c # d # r) @ 0x22 # rest)
        = parse_string (c # d # (quote_units r @ 0x22 # rest))"
      by (simp only: q append_Cons)
    also have "\<dots> = cons_fst c (cons_fst d (parse_string (quote_units r @ 0x22 # rest)))"
      by (simp only: parse_string_literal[OF c] parse_string_literal[OF d])
    also have "\<dots> = Some (c # d # r, rest)"
      using 3(1)[OF True] by (simp add: cons_fst_def)
    finally show ?thesis .
  next
    case False
    have q: "quote_units (c # d # r) = quote_unit c @ quote_units (d # r)"
      by (simp only: quote_units.simps False if_False)
    have "parse_string (quote_units (c # d # r) @ 0x22 # rest)
        = parse_string (quote_unit c @ (quote_units (d # r) @ 0x22 # rest))"
      by (simp only: q append_assoc)
    also have "\<dots> = cons_fst c (parse_string (quote_units (d # r) @ 0x22 # rest))"
      by (rule parse_string_quote_unit)
    also have "\<dots> = Some (c # d # r, rest)"
      using 3(2)[OF False] by (simp add: cons_fst_def)
    finally show ?thesis .
  qed
qed

section \<open>Integers survive printing and parsing\<close>

lemma digit_char_is_digit: "n < 10 \<Longrightarrow> is_digit (digit_char n) \<and> digit_val (digit_char n) = n
   \<and> (digit_char n = 0x30 \<longleftrightarrow> n = 0)"
proof -
  assume "n < 10"
  then have "n \<in> set [0, 1, 2, 3, 4, 5, 6, 7, 8, 9]"
    by simp arith
  then show ?thesis
    by (simp only: set_simps insert_iff empty_iff, elim disjE)
       (simp_all add: is_digit_def digit_char_def digit_val_def)
qed

lemma dec_digits: "\<forall>c\<in>set (dec n). is_digit c"
proof (induction n rule: dec.induct)
  case (1 n)
  show ?case
  proof (cases "n < 10")
    case True
    then show ?thesis by (subst dec.simps) (simp add: digit_char_is_digit)
  next
    case False
    with 1 show ?thesis by (subst dec.simps) (simp add: digit_char_is_digit)
  qed
qed

lemma dec_nonempty: "dec n \<noteq> []"
  by (subst dec.simps) simp

lemma digits_val_snoc: "digits_val (ds @ [c]) = 10 * digits_val ds + digit_val c"
  by (simp add: digits_val_def)

lemma digits_val_dec: "digits_val (dec n) = n"
proof (induction n rule: dec.induct)
  case (1 n)
  show ?case
  proof (cases "n < 10")
    case True
    then show ?thesis by (subst dec.simps) (simp add: digits_val_def digit_char_is_digit)
  next
    case False
    with 1 show ?thesis
      by (subst dec.simps) (simp add: digits_val_snoc digit_char_is_digit)
  qed
qed

lemma hd_dec: "hd (dec n) = 0x30 \<longleftrightarrow> n = 0"
proof (induction n rule: dec.induct)
  case (1 n)
  show ?case
  proof (cases "n < 10")
    case True
    then show ?thesis by (subst dec.simps) (simp add: digit_char_is_digit)
  next
    case False
    then have "n div 10 \<noteq> 0" by simp
    with False 1 show ?thesis
      by (subst dec.simps) (simp add: dec_nonempty)
  qed
qed

text \<open>The text after a number literal must not continue it.\<close>

definition ends_number :: "jsstring \<Rightarrow> bool" where
  "ends_number rest \<longleftrightarrow>
     (case rest of [] \<Rightarrow> True
      | c # _ \<Rightarrow> \<not> is_digit c \<and> c \<noteq> 0x2E \<and> c \<noteq> 0x65 \<and> c \<noteq> 0x45)"

lemma parse_int_part_dec:
  assumes "ends_number rest"
  shows "parse_int_part (dec n @ rest) = (dec n, rest)"
proof (cases "n = 0")
  case True
  then have "dec n = [0x30]"
    by (subst dec.simps) (simp add: digit_char_def)
  then show ?thesis by (simp add: parse_int_part_def)
next
  case False
  obtain c cs where d: "dec n = c # cs"
    using dec_nonempty[of n] by (cases "dec n") auto
  with False hd_dec[of n] have c: "c \<noteq> 0x30" by simp
  have tw: "takeWhile is_digit (dec n @ rest) = dec n"
    using assms dec_digits[of n]
    by (cases rest) (simp_all add: ends_number_def takeWhile_append2 takeWhile_eq_all_conv[THEN iffD2]
          takeWhile_append)
  have dw: "dropWhile is_digit (dec n @ rest) = rest"
    using assms dec_digits[of n]
    by (cases rest) (simp_all add: ends_number_def dropWhile_append dropWhile_eq_Nil_conv[THEN iffD2])
  show ?thesis
    using c tw dw by (simp add: parse_int_part_def d)
qed

lemma parse_frac_exp_end:
  assumes "ends_number rest"
  shows "parse_frac rest = Some ([], rest)" "parse_exp rest = Some (0, rest)"
  using assms by (cases rest; simp add: ends_number_def parse_frac_def parse_exp_def)+

lemma dec_not_minus: "hd (dec n) \<noteq> 0x2D"
proof -
  obtain c cs where d: "dec n = c # cs"
    using dec_nonempty[of n] by (cases "dec n") auto
  with dec_digits[of n] have "is_digit c" by simp
  then have "c \<noteq> 0x2D" by (auto simp: is_digit_def)
  with d show ?thesis by simp
qed

lemma parse_number_integer:
  assumes "ends_number rest"
  shows "parse_number (number_toString m 0 @ rest) = Some (JNum m 0, rest)"
proof (cases "m < 0")
  case True
  have "parse_sign (number_toString m 0 @ rest) = (True, dec (nat \<bar>m\<bar>) @ rest)"
    using True by (simp add: number_toString_def parse_sign_def)
  then show ?thesis
    using True
    by (simp add: parse_number_def parse_int_part_dec[OF assms] parse_frac_exp_end[OF assms]
          dec_nonempty digits_val_dec mk_number_def)
next
  case False
  obtain c cs where d: "dec (nat m) = c # cs"
    using dec_nonempty[of "nat m"] by (cases "dec (nat m)") auto
  with dec_not_minus[of "nat m"] have "c \<noteq> 0x2D" by simp
  then have "parse_sign (number_toString m 0 @ rest) = (False, dec (nat m) @ rest)"
    using False by (simp add: number_toString_def parse_sign_def d)
  then show ?thesis
    using False
    by (simp add: parse_number_def parse_int_part_dec[OF assms] parse_frac_exp_end[OF assms]
          dec_nonempty digits_val_dec mk_number_def)
qed

section \<open>A snapshot survives serialising and parsing\<close>

lemma parse_value_string: "parse_value (QuoteJSONString s @ rest) = Some (JStr s, rest)"
  by (subst parse_value.simps)
     (simp add: QuoteJSONString_def skip_ws_def is_json_ws_def parse_string_quote_units)

lemma parse_value_bool: "parse_value (JSON_stringify (JBool b) @ rest) = Some (JBool b, rest)"
  by (subst parse_value.simps) (cases b; simp add: js_def skip_ws_def is_json_ws_def)

lemma number_toString_hd:
  "\<exists>c r. number_toString m 0 @ rest = c # r \<and> (c = 0x2D \<or> is_digit c)"
proof (cases "m < 0")
  case True
  then show ?thesis by (simp add: number_toString_def)
next
  case False
  obtain c cs where d: "dec (nat m) = c # cs"
    using dec_nonempty[of "nat m"] by (cases "dec (nat m)") auto
  with dec_digits[of "nat m"] have "is_digit c" by simp
  with False d show ?thesis by (simp add: number_toString_def)
qed

lemma number_start:
  assumes "c = 0x2D \<or> is_digit c"
  shows "\<not> is_json_ws c" "c \<noteq> 0x22" "c \<noteq> 0x5B" "c \<noteq> 0x7B" "c \<noteq> 0x74" "c \<noteq> 0x66" "c \<noteq> 0x6E"
  using assms by (auto simp: is_digit_def is_json_ws_def word_le_nat_alt)

lemma parse_value_integer:
  assumes "ends_number rest"
  shows "parse_value (number_toString m 0 @ rest) = Some (JNum m 0, rest)"
proof -
  obtain c r where t: "number_toString m 0 @ rest = c # r" and c: "c = 0x2D \<or> is_digit c"
    using number_toString_hd by blast
  have "parse_value (c # r) = parse_number (c # r)"
    using number_start[OF c]
    by (subst parse_value.simps) (simp add: skip_ws_def js_def)
  then show ?thesis
    using parse_number_integer[OF assms, of m] by (simp add: t)
qed

lemma parse_members_last:
  assumes "parse_value (vt @ 0x7D # rest) = Some (v, 0x7D # rest)"
  shows "parse_members (QuoteJSONString k @ 0x3A # vt @ 0x7D # rest) = Some ([(k, v)], rest)"
  using assms
  by (subst parse_members.simps)
     (simp add: QuoteJSONString_def skip_ws_def is_json_ws_def parse_string_quote_units)

lemma parse_members_more:
  assumes "parse_value (vt @ 0x2C # follow) = Some (v, 0x2C # follow)"
      and "parse_members follow = Some (ps, rest)"
  shows "parse_members (QuoteJSONString k @ 0x3A # vt @ 0x2C # follow) = Some (add_member k v ps, rest)"
  using assms
  by (subst parse_members.simps)
     (simp add: QuoteJSONString_def skip_ws_def is_json_ws_def parse_string_quote_units)

lemma parse_elements_last:
  assumes "parse_value (vt @ 0x5D # rest) = Some (v, 0x5D # rest)"
  shows "parse_elements (vt @ 0x5D # rest) = Some ([v], rest)"
  using assms
  by (subst parse_elements.simps) (simp add: skip_ws_def is_json_ws_def)

lemma parse_elements_more:
  assumes "parse_value (vt @ 0x2C # follow) = Some (v, 0x2C # follow)"
      and "parse_elements follow = Some (vs, rest)"
  shows "parse_elements (vt @ 0x2C # follow) = Some (v # vs, rest)"
  using assms
  by (subst parse_elements.simps) (simp add: skip_ws_def is_json_ws_def)

lemma ends_number_sep: "ends_number (0x2C # r)" "ends_number (0x7D # r)"
  by (simp_all add: ends_number_def is_digit_def)

lemma parse_value_object:
  assumes "parse_members (QuoteJSONString k @ r) = Some (ps, rest)"
  shows "parse_value (0x7B # QuoteJSONString k @ r) = Some (JObj ps, rest)"
proof -
  have q: "QuoteJSONString k @ r = 0x22 # (quote_units k @ 0x22 # r)"
    by (simp add: QuoteJSONString_def)
  show ?thesis
    using assms unfolding q
    by (subst parse_value.simps) (simp add: skip_ws_def is_json_ws_def)
qed

lemma durable_text:
  "JSON_stringify (durable t) @ rest =
     0x7B # QuoteJSONString (js ''id'') @ 0x3A # QuoteJSONString (id' t) @ 0x2C #
            (QuoteJSONString (js ''title'') @ 0x3A # QuoteJSONString (title t) @ 0x2C #
            (QuoteJSONString (js ''completed'') @ 0x3A # JSON_stringify (JBool (completed t)) @ 0x2C #
            (QuoteJSONString (js ''createdAt'') @ 0x3A # number_toString (createdAt t) 0 @ 0x2C #
            (QuoteJSONString (js ''updatedAt'') @ 0x3A # number_toString (updatedAt t) 0 @ 0x7D # rest))))"
  by (simp add: durable_def del: JSON_stringify.simps(2))

lemma parse_value_durable:
  "parse_value (JSON_stringify (durable t) @ rest) = Some (durable t, rest)"
proof -
  have m5: "parse_members (QuoteJSONString (js ''updatedAt'') @ 0x3A # number_toString (updatedAt t) 0 @ 0x7D # rest)
      = Some ([(js ''updatedAt'', JNum (updatedAt t) 0)], rest)"
    by (rule parse_members_last[OF parse_value_integer[OF ends_number_sep(2)]])
  have m4: "parse_members (QuoteJSONString (js ''createdAt'') @ 0x3A # number_toString (createdAt t) 0 @ 0x2C #
       (QuoteJSONString (js ''updatedAt'') @ 0x3A # number_toString (updatedAt t) 0 @ 0x7D # rest))
      = Some (add_member (js ''createdAt'') (JNum (createdAt t) 0)
                [(js ''updatedAt'', JNum (updatedAt t) 0)], rest)"
    by (rule parse_members_more[OF parse_value_integer[OF ends_number_sep(1)] m5])
  have m3: "parse_members (QuoteJSONString (js ''completed'') @ 0x3A # JSON_stringify (JBool (completed t)) @ 0x2C #
       (QuoteJSONString (js ''createdAt'') @ 0x3A # number_toString (createdAt t) 0 @ 0x2C #
       (QuoteJSONString (js ''updatedAt'') @ 0x3A # number_toString (updatedAt t) 0 @ 0x7D # rest)))
      = Some (add_member (js ''completed'') (JBool (completed t))
               (add_member (js ''createdAt'') (JNum (createdAt t) 0)
                [(js ''updatedAt'', JNum (updatedAt t) 0)]), rest)"
    by (rule parse_members_more[OF parse_value_bool m4])
  have m2: "parse_members (QuoteJSONString (js ''title'') @ 0x3A # QuoteJSONString (title t) @ 0x2C #
       (QuoteJSONString (js ''completed'') @ 0x3A # JSON_stringify (JBool (completed t)) @ 0x2C #
       (QuoteJSONString (js ''createdAt'') @ 0x3A # number_toString (createdAt t) 0 @ 0x2C #
       (QuoteJSONString (js ''updatedAt'') @ 0x3A # number_toString (updatedAt t) 0 @ 0x7D # rest))))
      = Some (add_member (js ''title'') (JStr (title t))
              (add_member (js ''completed'') (JBool (completed t))
               (add_member (js ''createdAt'') (JNum (createdAt t) 0)
                [(js ''updatedAt'', JNum (updatedAt t) 0)])), rest)"
    by (rule parse_members_more[OF parse_value_string m3])
  have m1: "parse_members (QuoteJSONString (js ''id'') @ 0x3A # QuoteJSONString (id' t) @ 0x2C #
       (QuoteJSONString (js ''title'') @ 0x3A # QuoteJSONString (title t) @ 0x2C #
       (QuoteJSONString (js ''completed'') @ 0x3A # JSON_stringify (JBool (completed t)) @ 0x2C #
       (QuoteJSONString (js ''createdAt'') @ 0x3A # number_toString (createdAt t) 0 @ 0x2C #
       (QuoteJSONString (js ''updatedAt'') @ 0x3A # number_toString (updatedAt t) 0 @ 0x7D # rest)))))
      = Some (add_member (js ''id'') (JStr (id' t))
             (add_member (js ''title'') (JStr (title t))
              (add_member (js ''completed'') (JBool (completed t))
               (add_member (js ''createdAt'') (JNum (createdAt t) 0)
                [(js ''updatedAt'', JNum (updatedAt t) 0)]))), rest)"
    by (rule parse_members_more[OF parse_value_string m2])
  have keys: "add_member (js ''id'') (JStr (id' t))
          (add_member (js ''title'') (JStr (title t))
            (add_member (js ''completed'') (JBool (completed t))
              (add_member (js ''createdAt'') (JNum (createdAt t) 0)
                 [(js ''updatedAt'', JNum (updatedAt t) 0)])))
        = [(js ''id'', JStr (id' t)), (js ''title'', JStr (title t)),
            (js ''completed'', JBool (completed t)),
            (js ''createdAt'', JNum (createdAt t) 0), (js ''updatedAt'', JNum (updatedAt t) 0)]"
    by (simp add: add_member_def js_def)
  show ?thesis
    unfolding durable_text
    by (subst parse_value_object[OF m1]) (simp only: keys durable_def)
qed

lemma parse_elements_durables:
  "parse_elements (join_comma (map (\<lambda>t. JSON_stringify (durable t)) (t # ts)) @ 0x5D # rest)
     = Some (map durable (t # ts), rest)"
proof (induction ts arbitrary: t)
  case Nil
  have "parse_elements (JSON_stringify (durable t) @ 0x5D # rest) = Some ([durable t], rest)"
    by (rule parse_elements_last[OF parse_value_durable])
  then show ?case by simp
next
  case (Cons u us)
  have "parse_elements (JSON_stringify (durable t) @ 0x2C #
          (join_comma (map (\<lambda>t. JSON_stringify (durable t)) (u # us)) @ 0x5D # rest))
        = Some (durable t # map durable (u # us), rest)"
    by (rule parse_elements_more[OF parse_value_durable Cons.IH])
  then show ?case by simp
qed

lemma durable_text_hd:
  "\<exists>r. JSON_stringify (durable t) @ rest = 0x7B # r"
  by (simp add: durable_def)

lemma parse_value_array:
  assumes "parse_elements (0x7B # r) = Some (vs, rest)"
  shows "parse_value (0x5B # 0x7B # r) = Some (JArr vs, rest)"
  using assms by (subst parse_value.simps) (simp add: skip_ws_def is_json_ws_def)

lemma parse_value_snapshot:
  "parse_value (JSON_stringify (snapshot ts)) = Some (snapshot ts, [])"
proof (cases ts)
  case Nil
  then show ?thesis
    by (subst parse_value.simps) (simp add: snapshot_def skip_ws_def is_json_ws_def)
next
  case (Cons t us)
  let ?body = "join_comma (map (\<lambda>t. JSON_stringify (durable t)) (t # us)) @ [0x5D]"
  have shape: "JSON_stringify (snapshot ts) = 0x5B # ?body"
    by (simp add: snapshot_def Cons comp_def del: JSON_stringify.simps(6) join_comma.simps)
  obtain r where first: "?body = 0x7B # r"
  proof (cases us)
    case Nil
    with durable_text_hd[of t "[0x5D]"] that show ?thesis by auto
  next
    case (Cons u vs)
    with durable_text_hd[of t "0x2C # join_comma (map (\<lambda>t. JSON_stringify (durable t)) (u # vs)) @ [0x5D]"]
      that show ?thesis by auto
  qed
  have el: "parse_elements ?body = Some (map durable (t # us), [])"
    by (rule parse_elements_durables)
  have "parse_value (0x5B # ?body) = Some (JArr (map durable (t # us)), [])"
    using parse_value_array[OF el[unfolded first]] by (simp only: first)
  then show ?thesis
    unfolding shape by (simp only: snapshot_def Cons)
qed

lemma JSON_parse_snapshot: "JSON_parse (JSON_stringify (snapshot ts)) = Inr (snapshot ts)"
  by (simp add: JSON_parse_def parse_value_snapshot skip_ws_def)


section \<open>The parser consumes its input\<close>

lemma parse_sign_length: "parse_sign s = (b, r) \<Longrightarrow> length r \<le> length s"
  by (auto simp: parse_sign_def split: list.splits if_splits)

lemma parse_int_part_length:
  "parse_int_part s = (ip, r) \<Longrightarrow> length ip + length r = length s"
proof -
  assume a: "parse_int_part s = (ip, r)"
  have "length (takeWhile is_digit s) + length (dropWhile is_digit s) = length s"
    by (metis length_append takeWhile_dropWhile_id)
  with a show ?thesis
    by (auto simp: parse_int_part_def split: list.splits if_splits)
qed

lemma parse_frac_length: "parse_frac s = Some (fp, r) \<Longrightarrow> length r \<le> length s"
  using length_dropWhile_le[of is_digit "tl s"]
  by (auto simp: parse_frac_def split: list.splits if_splits)

lemma parse_exp_length: "parse_exp s = Some (e, r) \<Longrightarrow> length r \<le> length s"
proof -
  assume a: "parse_exp s = Some (e, r)"
  have d: "length (dropWhile is_digit xs) \<le> length xs" for xs :: jsstring
    by (rule length_dropWhile_le)
  from a show ?thesis
    using d[of "tl s"] d[of "tl (tl s)"]
    by (auto simp: parse_exp_def Let_def split: list.splits if_splits prod.splits)
qed

lemma parse_number_shorter:
  assumes "parse_number s = Some (v, r)"
  shows "length r < length s"
proof -
  obtain neg s1 where s1: "parse_sign s = (neg, s1)" by (cases "parse_sign s")
  obtain ip s2 where s2: "parse_int_part s1 = (ip, s2)" by (cases "parse_int_part s1")
  from assms s1 s2 have ip: "ip \<noteq> []"
    by (auto simp: parse_number_def split: if_splits)
  from assms s1 s2 ip obtain fp s3 where s3: "parse_frac s2 = Some (fp, s3)"
    by (auto simp: parse_number_def split: option.splits)
  from assms s1 s2 ip s3 obtain ex where s4: "parse_exp s3 = Some (ex, r)"
    by (auto simp: parse_number_def split: option.splits)
  from parse_sign_length[OF s1] parse_int_part_length[OF s2] parse_frac_length[OF s3]
    parse_exp_length[OF s4] ip
  show ?thesis by (cases ip) auto
qed

lemma skip_ws_Cons_length: "skip_ws s = c # r \<Longrightarrow> length r < length s"
  using length_skip_ws[of s] by simp

lemma parse_shorter:
  "(\<forall>v r. parse_value s = Some (v, r) \<longrightarrow> length r < length s)"
  "(\<forall>vs r. parse_elements s1 = Some (vs, r) \<longrightarrow> length r < length s1)"
  "(\<forall>ps r. parse_members s2 = Some (ps, r) \<longrightarrow> length r < length s2)"
proof (induction s and s1 and s2 rule: parse_value_parse_elements_parse_members.induct)
  case (1 s)
  show ?case
  proof (intro allI impI)
    fix v r
    assume pv: "parse_value s = Some (v, r)"
    then obtain c r0 where sk: "skip_ws s = c # r0"
      by (subst (asm) parse_value.simps) (auto split: list.splits)
    note l0 = skip_ws_Cons_length[OF sk]
    consider (str) "c = 0x22" | (arr) "c \<noteq> 0x22" "c = 0x5B" | (obj) "c \<noteq> 0x22" "c \<noteq> 0x5B" "c = 0x7B"
      | (other) "c \<noteq> 0x22" "c \<noteq> 0x5B" "c \<noteq> 0x7B"
      by blast
    then show "length r < length s"
    proof cases
      case str
      with pv sk obtain x where "parse_string r0 = Some (x, r)"
        by (subst (asm) parse_value.simps) (auto split: option.splits)
      from parse_string_shorter[OF this] l0 show ?thesis by simp
    next
      case arr
      from pv sk arr obtain c' r' where sk': "skip_ws r0 = c' # r'"
        by (subst (asm) parse_value.simps) (auto split: list.splits)
      note l1 = skip_ws_Cons_length[OF sk']
      show ?thesis
      proof (cases "c' = 0x5D")
        case True
        with pv sk arr sk' have "r = r'"
          by (subst (asm) parse_value.simps) auto
        with l0 l1 show ?thesis by simp
      next
        case False
        with pv sk arr sk' obtain vs where "parse_elements r0 = Some (vs, r)"
          by (subst (asm) parse_value.simps) (auto split: option.splits)
        with "1.IH"(1)[OF sk _ arr(2) sk' False] arr(1) l0 show ?thesis by auto
      qed
    next
      case obj
      from pv sk obj obtain c' r' where sk': "skip_ws r0 = c' # r'"
        by (subst (asm) parse_value.simps) (auto split: list.splits)
      note l1 = skip_ws_Cons_length[OF sk']
      show ?thesis
      proof (cases "c' = 0x7D")
        case True
        with pv sk obj sk' have "r = r'"
          by (subst (asm) parse_value.simps) auto
        with l0 l1 show ?thesis by simp
      next
        case False
        with pv sk obj sk' obtain ps where "parse_members r0 = Some (ps, r)"
          by (subst (asm) parse_value.simps) (auto split: option.splits)
        with "1.IH"(2)[OF sk _ _ obj(3) sk' False] obj(1,2) l0 show ?thesis by auto
      qed
    next
      case other
      with pv sk have "(r = drop 4 (c # r0) \<and> length (c # r0) \<ge> 4) \<or> (r = drop 5 (c # r0) \<and> length (c # r0) \<ge> 5)
          \<or> parse_number (c # r0) = Some (v, r)"
        by (subst (asm) parse_value.simps) (auto simp: js_def split: if_splits)
      with parse_number_shorter[of "c # r0" v r] l0 show ?thesis by auto
    qed
  qed
next
  case (2 s)
  show ?case
  proof (intro allI impI)
    fix vs r
    assume pe: "parse_elements s = Some (vs, r)"
    then obtain v r0 where pv: "parse_value s = Some (v, r0)"
      by (subst (asm) parse_elements.simps) (auto split: option.splits)
    with "2.IH"(1) have l0: "length r0 < length s" by simp
    from pe pv obtain c r' where sk: "skip_ws r0 = c # r'"
      by (subst (asm) parse_elements.simps) (auto split: list.splits)
    note l1 = skip_ws_Cons_length[OF sk]
    show "length r < length s"
    proof (cases "c = 0x5D")
      case True
      with pe pv sk have "r = r'"
        by (subst (asm) parse_elements.simps) auto
      with l0 l1 show ?thesis by simp
    next
      case False
      with pe pv sk obtain ws where g: "c = 0x2C \<and> length r' < length s" and "parse_elements r' = Some (ws, r)"
        by (subst (asm) parse_elements.simps) (auto split: option.splits if_splits)
      with "2.IH"(2)[OF pv refl sk False g] l0 l1 show ?thesis
        by auto
    qed
  qed
next
  case (3 s)
  show ?case
  proof (intro allI impI)
    fix ps r
    assume pm: "parse_members s = Some (ps, r)"
    then obtain q r0 where sk: "skip_ws s = q # r0"
      by (subst (asm) parse_members.simps) (auto split: list.splits)
    from pm sk have q: "\<not> q \<noteq> 0x22"
      by (subst (asm) parse_members.simps) (auto split: if_splits)
    from pm sk q obtain k r1 where ps: "parse_string r0 = Some (k, r1)"
      by (subst (asm) parse_members.simps) (auto split: option.splits)
    from pm sk q ps obtain c1 r2 where sk1: "skip_ws r1 = c1 # r2"
      by (subst (asm) parse_members.simps) (auto split: list.splits)
    from pm sk q ps sk1 have c1: "\<not> c1 \<noteq> 0x3A"
      by (subst (asm) parse_members.simps) (auto split: if_splits)
    from pm sk q ps sk1 c1 obtain v r3 where pv: "parse_value r2 = Some (v, r3)"
      by (subst (asm) parse_members.simps) (auto split: option.splits)
    from pm sk q ps sk1 c1 pv obtain c3 r4 where sk3: "skip_ws r3 = c3 # r4"
      by (subst (asm) parse_members.simps) (auto split: list.splits)
    have l: "length r4 < length r3" "length r3 < length r2" "length r2 < length r1"
        "length r1 < length r0" "length r0 < length s"
      using skip_ws_Cons_length[OF sk3] "3.IH"(1)[OF sk q ps refl sk1 c1] pv
        skip_ws_Cons_length[OF sk1] parse_string_shorter[OF ps] skip_ws_Cons_length[OF sk]
      by auto
    show "length r < length s"
    proof (cases "c3 = 0x7D")
      case True
      with pm sk q ps sk1 c1 pv sk3 have "r = r4"
        by (subst (asm) parse_members.simps) auto
      with l show ?thesis by simp
    next
      case False
      with pm sk q ps sk1 c1 pv sk3 obtain qs where g: "c3 = 0x2C \<and> length r4 < length s"
          and "parse_members r4 = Some (qs, r)"
        by (subst (asm) parse_members.simps) (auto split: option.splits if_splits)
      with "3.IH"(2)[OF sk q ps refl sk1 c1 pv refl sk3 False g] l
      show ?thesis by auto
    qed
  qed
qed

lemma parse_elements_unguarded:
  "parse_elements s =
     (case parse_value s of None \<Rightarrow> None
      | Some (v, r) \<Rightarrow>
          (case skip_ws r of [] \<Rightarrow> None
           | c # r' \<Rightarrow>
               if c = 0x5D then Some ([v], r')
               else if c = 0x2C then
                 (case parse_elements r' of None \<Rightarrow> None
                  | Some (vs, r'') \<Rightarrow> Some (v # vs, r''))
               else None))"
proof (cases "parse_value s")
  case None
  then show ?thesis by (subst parse_elements.simps) simp
next
  case (Some p)
  obtain v r where p: "p = (v, r)" by (cases p)
  from parse_shorter(1)[of s] Some p have l: "length r < length s" by simp
  show ?thesis
  proof (cases "skip_ws r")
    case Nil
    with Some p show ?thesis by (subst parse_elements.simps) simp
  next
    case (Cons c r')
    from skip_ws_Cons_length[OF Cons] l have "length r' < length s" by simp
    with Some p Cons show ?thesis by (subst parse_elements.simps) simp
  qed
qed

lemma parse_members_unguarded:
  "parse_members s =
     (case skip_ws s of [] \<Rightarrow> None
      | q # r0 \<Rightarrow>
          if q \<noteq> 0x22 then None
          else (case parse_string r0 of None \<Rightarrow> None
           | Some (k, r1) \<Rightarrow>
              (case skip_ws r1 of [] \<Rightarrow> None
               | c1 # r2 \<Rightarrow>
                  if c1 \<noteq> 0x3A then None
                  else (case parse_value r2 of None \<Rightarrow> None
                   | Some (v, r3) \<Rightarrow>
                      (case skip_ws r3 of [] \<Rightarrow> None
                       | c3 # r4 \<Rightarrow>
                           if c3 = 0x7D then Some ([(k, v)], r4)
                           else if c3 = 0x2C then
                             (case parse_members r4 of None \<Rightarrow> None
                              | Some (ps, r5) \<Rightarrow> Some (add_member k v ps, r5))
                           else None)))))"
proof -
  have g: "length r4 < length s"
    if "skip_ws s = q # r0" "parse_string r0 = Some (k, r1)" "skip_ws r1 = c1 # r2"
       "parse_value r2 = Some (v, r3)" "skip_ws r3 = c3 # r4" for q r0 k r1 c1 r2 v r3 c3 r4
    using skip_ws_Cons_length[OF that(1)] parse_string_shorter[OF that(2)]
      skip_ws_Cons_length[OF that(3)] parse_shorter(1)[of r2] that(4)
      skip_ws_Cons_length[OF that(5)]
    by auto
  show ?thesis
    by (subst parse_members.simps)
       (auto split: list.splits option.splits simp: g)
qed


section \<open>Saving and loading\<close>



lemma persist_ok:
  assumes "persist ts ls = Inr (ls', [])"
  shows "\<not> blocked ls'" "items ls' STORAGE_KEY = Some (JSON_stringify (snapshot ts))"
  using assms by (auto simp: persist_def setItem_def split: if_splits)


lemma durable_cong:
  "map (\<lambda>t. (id' t, title t, completed t, createdAt t, updatedAt t)) ts
     = map (\<lambda>t. (id' t, title t, completed t, createdAt t, updatedAt t)) ts'
   \<Longrightarrow> map durable ts = map durable ts'"
proof (induction ts arbitrary: ts')
  case Nil
  then show ?case by simp
next
  case (Cons t ts)
  then obtain u us where u: "ts' = u # us" by (cases ts') auto
  with Cons.prems have "durable t = durable u"
    by (simp add: durable_def)
  with Cons u show ?case by simp
qed



text \<open>
  C9. The text that a successful save leaves under the storage key parses to an array
  with one object per task, and the keys of every object are exactly id, title,
  completed, createdAt, updatedAt; \<open>editing\<close> is not among them. Two collections that
  agree, task by task, on these five fields have the same snapshot, and saving either
  of them has the same result.
\<close>

theorem snapshot_has_only_durable_fields:
  "(\<forall>ls'. persist ts ls = Inr (ls', []) \<longrightarrow>
      (\<exists>raw objs. items ls' STORAGE_KEY = Some raw \<and> JSON_parse raw = Inr (JArr objs) \<and>
         length objs = length ts \<and>
         (\<forall>obj\<in>set objs. \<exists>ps. obj = JObj ps \<and> map fst ps = durable_keys))) \<and>
   js ''editing'' \<notin> set durable_keys \<and>
   (map (\<lambda>t. (id' t, title t, completed t, createdAt t, updatedAt t)) ts
      = map (\<lambda>t. (id' t, title t, completed t, createdAt t, updatedAt t)) ts'
    \<longrightarrow> snapshot ts = snapshot ts' \<and> persist ts ls = persist ts' ls)"
proof -
  have a: "\<exists>raw objs. items ls' STORAGE_KEY = Some raw \<and> JSON_parse raw = Inr (JArr objs) \<and>
         length objs = length ts \<and>
         (\<forall>obj\<in>set objs. \<exists>ps. obj = JObj ps \<and> map fst ps = durable_keys)"
    if "persist ts ls = Inr (ls', [])" for ls'
  proof -
    have "\<forall>obj\<in>set (map durable ts). \<exists>ps. obj = JObj ps \<and> map fst ps = durable_keys"
      by (auto simp: durable_def durable_keys_def)
    with persist_ok(2)[OF that] JSON_parse_snapshot[of ts] show ?thesis
      by (auto simp: snapshot_def)
  qed
  have b: "snapshot ts = snapshot ts'"
    if "map (\<lambda>t. (id' t, title t, completed t, createdAt t, updatedAt t)) ts
      = map (\<lambda>t. (id' t, title t, completed t, createdAt t, updatedAt t)) ts'"
    using durable_cong[OF that] by (simp add: snapshot_def)
  have c: "js ''editing'' \<notin> set durable_keys"
    by (simp add: durable_keys_def js_def)
  have d: "persist ts ls = persist ts' ls" if "snapshot ts = snapshot ts'"
    using that by (simp add: persist_def)
  show ?thesis
    using a b c d by blast
qed

text \<open>The text that saving the sample state stores.\<close>

lemma snapshot_text_example:
  "JSON_stringify (snapshot (todos st0)) =
     js ''[{\"id\":\"a\",\"title\":\"Buy milk\",\"completed\":false,\"createdAt\":1000,\"updatedAt\":1000},{\"id\":\"b\",\"title\":\"Call mom\",\"completed\":true,\"createdAt\":900,\"updatedAt\":950}]''"
  by code_simp

theorem snapshot_has_only_durable_fields_witness:
  "persist (todos st0) ls0
     = Inr (ls0\<lparr>items := (items ls0)(STORAGE_KEY \<mapsto> JSON_stringify (snapshot (todos st0)))\<rparr>, []) \<and>
   (\<exists>raw objs.
      items (ls0\<lparr>items := (items ls0)(STORAGE_KEY \<mapsto> JSON_stringify (snapshot (todos st0)))\<rparr>)
        STORAGE_KEY = Some raw \<and>
      JSON_parse raw = Inr (JArr objs) \<and> length objs = length (todos st0)) \<and>
   map (\<lambda>t. (id' t, title t, completed t, createdAt t, updatedAt t)) (todos st0)
     = map (\<lambda>t. (id' t, title t, completed t, createdAt t, updatedAt t))
         (map (\<lambda>t. t\<lparr>editing := None\<rparr>) (todos st0)) \<and>
   persist (todos st0) ls0 = persist (map (\<lambda>t. t\<lparr>editing := None\<rparr>) (todos st0)) ls0"
proof -
  have h: "persist (todos st0) ls0
     = Inr (ls0\<lparr>items := (items ls0)(STORAGE_KEY \<mapsto> JSON_stringify (snapshot (todos st0)))\<rparr>, [])"
    by (simp add: persist_def setItem_def ls0_def)
  have e: "map (\<lambda>t. (id' t, title t, completed t, createdAt t, updatedAt t)) (todos st0)
     = map (\<lambda>t. (id' t, title t, completed t, createdAt t, updatedAt t))
         (map (\<lambda>t. t\<lparr>editing := None\<rparr>) (todos st0))"
    by (simp add: comp_def)
  show ?thesis
    using snapshot_has_only_durable_fields
            [of "todos st0" ls0 "map (\<lambda>t. t\<lparr>editing := None\<rparr>) (todos st0)"] h e
    by blast
qed

text \<open>
  C6, as the code has it. Loading always returns. When the key is absent, or the stored
  text is empty, the collection starts empty and nothing is logged. When reading the
  storage or parsing the text throws, the exception is caught, a warning is logged and
  the collection starts empty. When the text parses to a value that is not an array, the
  collection starts empty and nothing is logged. When it parses to an array, every
  element is pushed with \<open>editing\<close> set to false, whatever it is, and nothing is logged.
\<close>

theorem onMounted_never_throws:
  "(\<exists>xs c. onMounted ls = Inr (xs, c)) \<and>
   (blocked ls \<longrightarrow> onMounted ls = Inr ([], [parse_warning SecurityError])) \<and>
   (\<not> blocked ls \<and> items ls STORAGE_KEY = None \<longrightarrow> onMounted ls = Inr ([], [])) \<and>
   (\<not> blocked ls \<and> items ls STORAGE_KEY = Some [] \<longrightarrow> onMounted ls = Inr ([], [])) \<and>
   (\<forall>raw e. \<not> blocked ls \<and> items ls STORAGE_KEY = Some raw \<and> raw \<noteq> [] \<and>
        JSON_parse raw = Inl e \<longrightarrow> onMounted ls = Inr ([], [parse_warning e])) \<and>
   (\<forall>raw v. \<not> blocked ls \<and> items ls STORAGE_KEY = Some raw \<and> raw \<noteq> [] \<and>
        JSON_parse raw = Inr v \<and> (\<forall>xs. v \<noteq> JArr xs) \<longrightarrow> onMounted ls = Inr ([], [])) \<and>
   (\<forall>raw xs. \<not> blocked ls \<and> items ls STORAGE_KEY = Some raw \<and> raw \<noteq> [] \<and>
        JSON_parse raw = Inr (JArr xs) \<longrightarrow> onMounted ls = Inr (map hydrate xs, []))"
proof -
  have total: "\<exists>xs c. onMounted ls = Inr (xs, c)"
    by (cases "onMounted_try ls") (simp_all add: onMounted_def)
  have denied: "onMounted ls = Inr ([], [parse_warning SecurityError])" if "blocked ls"
    using that by (simp add: onMounted_def onMounted_try_def getItem_def)
  have absent: "onMounted ls = Inr ([], [])" if "\<not> blocked ls" "items ls STORAGE_KEY = None"
    using that by (simp add: onMounted_def onMounted_try_def getItem_def)
  have empty: "onMounted ls = Inr ([], [])" if "\<not> blocked ls" "items ls STORAGE_KEY = Some []"
    using that by (simp add: onMounted_def onMounted_try_def getItem_def)
  have throws: "onMounted ls = Inr ([], [parse_warning e])"
    if "\<not> blocked ls" "items ls STORAGE_KEY = Some raw" "raw \<noteq> []" "JSON_parse raw = Inl e"
    for raw e
    using that by (simp add: onMounted_def onMounted_try_def getItem_def)
  have other: "onMounted ls = Inr ([], [])"
    if "\<not> blocked ls" "items ls STORAGE_KEY = Some raw" "raw \<noteq> []" "JSON_parse raw = Inr v"
       "\<forall>xs. v \<noteq> JArr xs" for raw v
    using that by (cases v) (simp_all add: onMounted_def onMounted_try_def getItem_def)
  have array: "onMounted ls = Inr (map hydrate xs, [])"
    if "\<not> blocked ls" "items ls STORAGE_KEY = Some raw" "raw \<noteq> []"
       "JSON_parse raw = Inr (JArr xs)" for raw xs
    using that by (simp add: onMounted_def onMounted_try_def getItem_def)
  show ?thesis
    using total denied absent empty throws other array by blast
qed

lemma JSON_parse_examples:
  "JSON_parse (js ''{}'') = Inr (JObj [])"
  "JSON_parse (js ''[1,'') = Inl SyntaxError"
  "JSON_parse [] = Inl SyntaxError"
  "JSON_parse (js ''[7, \"x\"]'') = Inr (JArr [JNum 7 0, JStr (js ''x'')])"
  by code_simp+

text \<open>A number has no own properties; a string has its indices.\<close>

lemma hydrate_examples:
  "hydrate (JNum 7 0) = JObj [(js ''editing'', JBool False)]"
  "hydrate (JStr (js ''x'')) = JObj [(js ''0'', JStr (js ''x'')), (js ''editing'', JBool False)]"
  by code_simp+

theorem onMounted_never_throws_witness:
  "onMounted (ls0\<lparr>blocked := True\<rparr>) = Inr ([], [parse_warning SecurityError]) \<and>
   items ls0 STORAGE_KEY = None \<and> onMounted ls0 = Inr ([], []) \<and>
   onMounted (ls0\<lparr>items := [STORAGE_KEY \<mapsto> []]\<rparr>) = Inr ([], []) \<and>
   JSON_parse (js ''[1,'') = Inl SyntaxError \<and>
   onMounted (ls0\<lparr>items := [STORAGE_KEY \<mapsto> js ''[1,'']\<rparr>) = Inr ([], [parse_warning SyntaxError]) \<and>
   JSON_parse (js ''{}'') = Inr (JObj []) \<and>
   onMounted (ls0\<lparr>items := [STORAGE_KEY \<mapsto> js ''{}'']\<rparr>) = Inr ([], []) \<and>
   JSON_parse (js ''[7, \"x\"]'') = Inr (JArr [JNum 7 0, JStr (js ''x'')]) \<and>
   onMounted (ls0\<lparr>items := [STORAGE_KEY \<mapsto> js ''[7, \"x\"]'']\<rparr>)
     = Inr ([JObj [(js ''editing'', JBool False)],
             JObj [(js ''0'', JStr (js ''x'')), (js ''editing'', JBool False)]], [])"
proof -
  have ne: "js ''[1,'' \<noteq> []" "js ''{}'' \<noteq> []" "js ''[7, \"x\"]'' \<noteq> []"
    by (simp_all add: js_def)
  show ?thesis
    using onMounted_never_throws [of "ls0\<lparr>blocked := True\<rparr>"]
          onMounted_never_throws [of ls0]
          onMounted_never_throws [of "ls0\<lparr>items := [STORAGE_KEY \<mapsto> []]\<rparr>"]
          onMounted_never_throws [of "ls0\<lparr>items := [STORAGE_KEY \<mapsto> js ''[1,'']\<rparr>"]
          onMounted_never_throws [of "ls0\<lparr>items := [STORAGE_KEY \<mapsto> js ''{}'']\<rparr>"]
          onMounted_never_throws [of "ls0\<lparr>items := [STORAGE_KEY \<mapsto> js ''[7, \"x\"]'']\<rparr>"]
    by (simp add: ls0_def JSON_parse_examples hydrate_examples ne)
qed

text \<open>
  The claim as written fails for a stored value that parses, but not to an array: the
  text \<open>{}\<close> is present and is not an array, and loading it logs no warning.
\<close>

theorem malformed_without_warning_counterexample:
  "items (ls0\<lparr>items := [STORAGE_KEY \<mapsto> js ''{}'']\<rparr>) STORAGE_KEY = Some (js ''{}'') \<and>
   JSON_parse (js ''{}'') = Inr (JObj []) \<and>
   onMounted (ls0\<lparr>items := [STORAGE_KEY \<mapsto> js ''{}'']\<rparr>) = Inr ([], [])"
proof -
  have "js ''{}'' \<noteq> []"
    by (simp add: js_def)
  then show ?thesis
    by (simp add: JSON_parse_examples onMounted_def onMounted_try_def getItem_def ls0_def)
qed

end
